theory Spec2Isabelle
  imports Main "HOL-Library.Word" "HOL-Library.Char_ord" "HOL-Library.List_Lexorder"
    "HOL-Library.Sublist"
begin

section \<open>Character classes of the C library\<close>

text \<open>The character classes of the C locale.\<close>

definition isspace_c :: "char \<Rightarrow> bool" where
  "isspace_c c = (c = CHR '' '' \<or> c = CHR 0x09 \<or> c = CHR 0x0A \<or> c = CHR 0x0B
     \<or> c = CHR 0x0C \<or> c = CHR 0x0D)"

definition isalnum_c :: "char \<Rightarrow> bool" where
  "isalnum_c c = ((CHR ''0'' \<le> c \<and> c \<le> CHR ''9'') \<or> (CHR ''A'' \<le> c \<and> c \<le> CHR ''Z'')
     \<or> (CHR ''a'' \<le> c \<and> c \<le> CHR ''z''))"

definition tolower_c :: "char \<Rightarrow> char" where
  "tolower_c c =
     (if CHR ''A'' \<le> c \<and> c \<le> CHR ''Z''
      then ''abcdefghijklmnopqrstuvwxyz'' ! (of_char c - (65::nat)) else c)"

section \<open>Suffix stemmer (stemmer.cpp and search\_cli.cpp)\<close>

text \<open>
  A C string is modelled as the list of its bytes before the terminating NUL.
  Storing NUL at index \<open>k\<close> of a string of length at least \<open>k\<close> leaves the
  string \<open>take k\<close>.  Lengths are natural numbers: both callers hand over strings far
  shorter than \<open>2^31\<close> bytes, so the cast of \<open>strlen\<close> to \<open>int\<close> is exact.
\<close>

definition ends_with :: "string \<Rightarrow> nat \<Rightarrow> string \<Rightarrow> bool" where
  "ends_with s n sfx =
     (let m = length sfx in
      if n < m then False else take m (drop (n - m) s) = sfx)"

definition stem_token :: "string \<Rightarrow> string" where
  "stem_token token =
     (let n = length token in
      if n \<le> 2 then token
      else if n > 5 \<and> ends_with token n ''ingly'' then take (n - 5) token
      else if n > 4 \<and> ends_with token n ''edly'' then take (n - 4) token
      else if n > 4 \<and> ends_with token n ''ing'' then take (n - 3) token
      else if n > 3 \<and> ends_with token n ''ed'' then take (n - 2) token
      else if n > 4 \<and> ends_with token n ''ies''
        then take (n - 2) (token[n - 3 := CHR ''y''])
      else if n > 3 \<and> ends_with token n ''es'' then take (n - 2) token
      else if n > 3 \<and> ends_with token n ''ly'' then take (n - 2) token
      else if n > 3 \<and> token ! (n - 1) = CHR ''s'' then take (n - 1) token
      else token)"

text \<open>
  The token loop of \<open>main\<close> in stemmer.cpp, over the body of a line: blanks are
  skipped, the bytes up to the next blank are a token, the token is stemmed, and it is
  written unless it became empty.  \<open>split_tokens\<close> is the scan, \<open>stem_body\<close> the
  list of tokens written.
\<close>

function split_tokens :: "string \<Rightarrow> string list" where
  "split_tokens p =
     (let p1 = dropWhile isspace_c p in
      if p1 = [] then []
      else takeWhile (\<lambda>c. \<not> isspace_c c) p1
             # split_tokens (dropWhile (\<lambda>c. \<not> isspace_c c) p1))"
  by pat_completeness auto
termination
proof (relation "measure length")
  fix p p1 :: string
  assume p1: "p1 = dropWhile isspace_c p" and ne: "p1 \<noteq> []"
  from ne obtain c r where c: "p1 = c # r" by (cases p1) simp_all
  have "\<not> isspace_c (hd (dropWhile isspace_c p))"
    using ne p1 hd_dropWhile by blast
  then have "\<not> isspace_c c" using c p1 by simp
  then have "dropWhile (\<lambda>c. \<not> isspace_c c) p1 = dropWhile (\<lambda>c. \<not> isspace_c c) r"
    using c by simp
  then have "length (dropWhile (\<lambda>c. \<not> isspace_c c) p1) \<le> length r"
    by (simp add: length_dropWhile_le)
  also have "length r < length p1" using c by simp
  also have "length p1 \<le> length p" using p1 by (simp add: length_dropWhile_le)
  finally show "(dropWhile (\<lambda>c. \<not> isspace_c c) p1, p) \<in> measure length" by simp
qed simp

declare split_tokens.simps [simp del]

definition stem_body :: "string \<Rightarrow> string list" where
  "stem_body body = filter (\<lambda>st. st \<noteq> []) (map stem_token (split_tokens body))"

text \<open>The query-time copy of the stemmer, transcribed from search\_cli.cpp.\<close>

definition stem_term_inplace :: "string \<Rightarrow> string" where
  "stem_term_inplace token =
     (let n = length token in
      if n \<le> 2 then token
      else if n > 5 \<and> ends_with token n ''ingly'' then take (n - 5) token
      else if n > 4 \<and> ends_with token n ''edly'' then take (n - 4) token
      else if n > 4 \<and> ends_with token n ''ing'' then take (n - 3) token
      else if n > 3 \<and> ends_with token n ''ed'' then take (n - 2) token
      else if n > 4 \<and> ends_with token n ''ies''
        then take (n - 2) (token[n - 3 := CHR ''y''])
      else if n > 3 \<and> ends_with token n ''es'' then take (n - 2) token
      else if n > 3 \<and> ends_with token n ''ly'' then take (n - 2) token
      else if n > 3 \<and> token ! (n - 1) = CHR ''s'' then take (n - 1) token
      else token)"

text \<open>
  The rule table of the specification, section 4.2, written from its words: a rule is
  a length bound, a suffix, the number of bytes stripped and the bytes put in their place.
\<close>

record stem_rule =
  min_len :: nat
  rule_suffix :: string
  strip :: nat
  replacement :: string

definition rule_table :: "stem_rule list" where
  "rule_table =
     [\<lparr>min_len = 5, rule_suffix = ''ingly'', strip = 5, replacement = ''''\<rparr>,
      \<lparr>min_len = 4, rule_suffix = ''edly'', strip = 4, replacement = ''''\<rparr>,
      \<lparr>min_len = 4, rule_suffix = ''ing'', strip = 3, replacement = ''''\<rparr>,
      \<lparr>min_len = 3, rule_suffix = ''ed'', strip = 2, replacement = ''''\<rparr>,
      \<lparr>min_len = 4, rule_suffix = ''ies'', strip = 3, replacement = ''y''\<rparr>,
      \<lparr>min_len = 3, rule_suffix = ''es'', strip = 2, replacement = ''''\<rparr>,
      \<lparr>min_len = 3, rule_suffix = ''ly'', strip = 2, replacement = ''''\<rparr>,
      \<lparr>min_len = 3, rule_suffix = ''s'', strip = 1, replacement = ''''\<rparr>]"

definition rule_matches :: "string \<Rightarrow> stem_rule \<Rightarrow> bool" where
  "rule_matches t r = (length t > min_len r \<and> suffix (rule_suffix r) t)"

definition apply_rule :: "string \<Rightarrow> stem_rule \<Rightarrow> string" where
  "apply_rule t r = take (length t - strip r) t @ replacement r"

definition first_matching_rule :: "string \<Rightarrow> stem_rule option" where
  "first_matching_rule t = find (rule_matches t) rule_table"

definition stem_by_table :: "string \<Rightarrow> string" where
  "stem_by_table t =
     (case first_matching_rule t of None \<Rightarrow> t | Some r \<Rightarrow> apply_rule t r)"

section \<open>Query engine (search\_cli.cpp)\<close>

subsection \<open>Data\<close>

type_synonym u32 = "32 word"

datatype TokenType = TOK_TERM | TOK_AND | TOK_OR | TOK_NOT | TOK_LPAREN | TOK_RPAREN

text \<open>A token's text is a null pointer (\<open>None\<close>) for every token but a term.\<close>

record Token =
  tok_type :: TokenType
  tok_text :: "string option"

record LexEntry =
  lex_term :: string
  postings_offset :: nat
  postings_count :: nat

record DocMeta =
  title :: "string option"
  url :: "string option"

text \<open>
  The loaded index.  The counts the C structure carries beside each array are the lengths
  of the lists: \<open>term_count\<close> is \<open>length (lexicon idx)\<close>, \<open>postings_total\<close> is
  \<open>length (postings_data idx)\<close>, \<open>universe_count\<close> is \<open>length (universe_ids idx)\<close>.
  The metadata array is read only below its capacity, behind the test against
  \<open>max_doc_id\<close>, and is a function of the index.  A posting list is the list of its
  ids.  Allocation is taken to succeed.
\<close>

record IndexData =
  lexicon :: "LexEntry list"
  postings_data :: "u32 list"
  metas_by_id :: "nat \<Rightarrow> DocMeta"
  max_doc_id :: u32
  universe_ids :: "u32 list"

datatype error = TokenizeError | ParseError | EvalError

subsection \<open>Lexer\<close>

definition mk_token :: "TokenType \<Rightarrow> string option \<Rightarrow> Token" where
  "mk_token ty tx = \<lparr>tok_type = ty, tok_text = tx\<rparr>"

text \<open>The first loop of \<open>tokenize_query\<close>, over the bytes still to be read.\<close>

function tokenize_raw :: "string \<Rightarrow> Token list" where
  "tokenize_raw [] = []"
| "tokenize_raw (ch # rest) =
     (if isspace_c ch then tokenize_raw rest
      else if ch = CHR ''&'' \<and> rest \<noteq> [] \<and> hd rest = CHR ''&''
        then mk_token TOK_AND None # tokenize_raw (tl rest)
      else if ch = CHR ''|'' \<and> rest \<noteq> [] \<and> hd rest = CHR ''|''
        then mk_token TOK_OR None # tokenize_raw (tl rest)
      else if ch = CHR ''!'' then mk_token TOK_NOT None # tokenize_raw rest
      else if ch = CHR ''('' then mk_token TOK_LPAREN None # tokenize_raw rest
      else if ch = CHR '')'' then mk_token TOK_RPAREN None # tokenize_raw rest
      else if isalnum_c ch then
        mk_token TOK_TERM
          (Some (stem_term_inplace (map tolower_c (takeWhile isalnum_c (ch # rest)))))
          # tokenize_raw (dropWhile isalnum_c (ch # rest))
      else tokenize_raw rest)"
  by pat_completeness auto
termination
proof (relation "measure length")
  fix ch :: char and rest :: string
  assume "isalnum_c ch"
  then have "dropWhile isalnum_c (ch # rest) = dropWhile isalnum_c rest" by simp
  then show "(dropWhile isalnum_c (ch # rest), ch # rest) \<in> measure length"
    by (simp add: length_dropWhile_le less_Suc_eq_le)
qed (auto simp: less_Suc_eq_le)

definition is_operand_end :: "TokenType \<Rightarrow> bool" where
  "is_operand_end ty = (ty = TOK_TERM \<or> ty = TOK_RPAREN)"

definition is_operand_start :: "TokenType \<Rightarrow> bool" where
  "is_operand_start ty = (ty = TOK_TERM \<or> ty = TOK_LPAREN \<or> ty = TOK_NOT)"

text \<open>The second loop of \<open>tokenize_query\<close>, by index \<open>t\<close> into the raw array.\<close>

function expand_loop :: "Token list \<Rightarrow> nat \<Rightarrow> Token list \<Rightarrow> Token list" where
  "expand_loop raw t expanded =
     (if t < length raw then
        expand_loop raw (t + 1)
          ((if t > 0 \<and> is_operand_end (tok_type (raw ! (t - 1)))
                \<and> is_operand_start (tok_type (raw ! t))
            then expanded @ [mk_token TOK_AND None] else expanded) @ [raw ! t])
      else expanded)"
  by pat_completeness auto
termination
  by (relation "measure (\<lambda>(raw, t, expanded). length raw - t)") auto

declare expand_loop.simps [simp del]

definition tokenize_query :: "string \<Rightarrow> Token list" where
  "tokenize_query query = expand_loop (tokenize_raw query) 0 []"

subsection \<open>Shunting-yard parser\<close>

definition precedence :: "TokenType \<Rightarrow> int" where
  "precedence t = (if t = TOK_NOT then 3 else if t = TOK_AND then 2
     else if t = TOK_OR then 1 else 0)"

definition is_right_assoc :: "TokenType \<Rightarrow> bool" where
  "is_right_assoc t = (t = TOK_NOT)"

definition is_operator :: "TokenType \<Rightarrow> bool" where
  "is_operator t = (t = TOK_AND \<or> t = TOK_OR \<or> t = TOK_NOT)"

text \<open>
  Stacks are lists with the top at the head; the output array grows at its end.
  \<open>pop_operators\<close> is the inner loop of the operator case, \<open>pop_to_lparen\<close> the
  loop of the closing parenthesis, \<open>drain_ops\<close> the loop after the last token.
\<close>

fun pop_operators :: "Token \<Rightarrow> Token list \<Rightarrow> Token list \<Rightarrow> Token list \<times> Token list" where
  "pop_operators t [] out = ([], out)"
| "pop_operators t (tp # ops) out =
     (if \<not> is_operator (tok_type tp) then (tp # ops, out)
      else
        let p_top = precedence (tok_type tp); p_cur = precedence (tok_type t) in
        if p_top > p_cur \<or> (p_top = p_cur \<and> \<not> is_right_assoc (tok_type t))
        then pop_operators t ops (out @ [tp])
        else (tp # ops, out))"

fun pop_to_lparen :: "Token list \<Rightarrow> Token list \<Rightarrow> (Token list \<times> Token list) option" where
  "pop_to_lparen [] out = None"
| "pop_to_lparen (tp # ops) out =
     (if tok_type tp = TOK_LPAREN then Some (ops, out)
      else pop_to_lparen ops (out @ [tp]))"

fun drain_ops :: "Token list \<Rightarrow> Token list \<Rightarrow> Token list option" where
  "drain_ops [] out = Some out"
| "drain_ops (tp # ops) out =
     (if tok_type tp = TOK_LPAREN \<or> tok_type tp = TOK_RPAREN then None
      else drain_ops ops (out @ [tp]))"

fun to_rpn_loop ::
  "Token list \<Rightarrow> Token list \<Rightarrow> Token list \<Rightarrow> (Token list \<times> Token list) option" where
  "to_rpn_loop [] ops out = Some (ops, out)"
| "to_rpn_loop (t # ts) ops out =
     (if tok_type t = TOK_TERM then to_rpn_loop ts ops (out @ [t])
      else if is_operator (tok_type t) then
        (case pop_operators t ops out of (ops', out') \<Rightarrow> to_rpn_loop ts (t # ops') out')
      else if tok_type t = TOK_LPAREN then to_rpn_loop ts (t # ops) out
      else if tok_type t = TOK_RPAREN then
        (case pop_to_lparen ops out of
           None \<Rightarrow> None
         | Some (ops', out') \<Rightarrow> to_rpn_loop ts ops' out')
      else to_rpn_loop ts ops out)"

definition to_rpn :: "Token list \<Rightarrow> Token list option" where
  "to_rpn in_tokens =
     (case to_rpn_loop in_tokens [] [] of
        None \<Rightarrow> None
      | Some (ops, out) \<Rightarrow> drain_ops ops out)"

subsection \<open>Lexicon lookup and posting-list algebra\<close>

text \<open>
  \<open>strcmp\<close> compares bytes as unsigned, which is the order of \<open>char\<close> and
  the lexicographic order of \<open>string\<close>; only its sign is used.  The binary search runs
  on 64-bit signed bounds, here integers.  The merges walk two arrays by index; the model
  recurses on what is left of each array.
\<close>

definition strcmp :: "string \<Rightarrow> string \<Rightarrow> int" where
  "strcmp a b = (if a < b then - 1 else if a = b then 0 else 1)"

function lexicon_find_loop :: "LexEntry list \<Rightarrow> string \<Rightarrow> int \<Rightarrow> int \<Rightarrow> (nat \<times> nat) option" where
  "lexicon_find_loop lx t lo hi =
     (if lo \<le> hi then
        (let mid = (lo + hi) div 2;
             cmp = strcmp t (lex_term (lx ! nat mid)) in
         if cmp = 0 then
           Some (postings_offset (lx ! nat mid), postings_count (lx ! nat mid))
         else if cmp < 0 then lexicon_find_loop lx t lo (mid - 1)
         else lexicon_find_loop lx t (mid + 1) hi)
      else None)"
  by pat_completeness auto
termination
  by (relation "measure (\<lambda>(lx, t, lo, hi). nat (hi - lo + 1))") auto

declare lexicon_find_loop.simps [simp del]

definition lexicon_find :: "IndexData \<Rightarrow> string \<Rightarrow> (nat \<times> nat) option" where
  "lexicon_find idx t =
     lexicon_find_loop (lexicon idx) t 0 (int (length (lexicon idx)) - 1)"

fun op_and :: "u32 list \<Rightarrow> u32 list \<Rightarrow> u32 list" where
  "op_and [] b = []"
| "op_and (x # xs) [] = []"
| "op_and (x # xs) (y # ys) =
     (if x = y then x # op_and xs ys
      else if x < y then op_and xs (y # ys)
      else op_and (x # xs) ys)"

fun op_or :: "u32 list \<Rightarrow> u32 list \<Rightarrow> u32 list" where
  "op_or [] b = b"
| "op_or (x # xs) [] = x # xs"
| "op_or (x # xs) (y # ys) =
     (if x = y then x # op_or xs ys
      else if x < y then x # op_or xs (y # ys)
      else y # op_or (x # xs) ys)"

text \<open>The merge of \<open>op_not\<close>, over what is left of the universe and of the operand.\<close>

fun not_merge :: "u32 list \<Rightarrow> u32 list \<Rightarrow> u32 list" where
  "not_merge [] a = []"
| "not_merge (u # us) [] = u # not_merge us []"
| "not_merge (u # us) (x # xs) =
     (if u = x then not_merge us xs
      else if u < x then u # not_merge us (x # xs)
      else not_merge (u # us) xs)"

definition op_not :: "IndexData \<Rightarrow> u32 list \<Rightarrow> u32 list" where
  "op_not idx a = not_merge (universe_ids idx) a"

subsection \<open>Evaluator\<close>

text \<open>
  The operand stack is a list with the top at its head; \<open>None\<close> is the early return
  of an evaluation error.  \<open>start + cnt\<close> is a 64-bit sum of a quotient below \<open>2^62\<close>
  and a 32-bit count, so it cannot wrap and is taken in the natural numbers.  A term token
  without a text does not come out of the lexer; the model fails on it.
\<close>

fun eval_rpn_loop :: "IndexData \<Rightarrow> Token list \<Rightarrow> u32 list list \<Rightarrow> u32 list list option" where
  "eval_rpn_loop idx [] stack = Some stack"
| "eval_rpn_loop idx (t # ts) stack =
     (if tok_type t = TOK_TERM then
        (case tok_text t of
           None \<Rightarrow> None
         | Some tx \<Rightarrow>
            (case lexicon_find idx tx of
               None \<Rightarrow> eval_rpn_loop idx ts ([] # stack)
             | Some (offset, cnt) \<Rightarrow>
                 let start = offset div 4 in
                 if start + cnt > length (postings_data idx) then None
                 else eval_rpn_loop idx ts (take cnt (drop start (postings_data idx)) # stack)))
      else if tok_type t = TOK_NOT then
        (case stack of
           [] \<Rightarrow> None
         | a # st \<Rightarrow> eval_rpn_loop idx ts (op_not idx a # st))
      else if tok_type t = TOK_AND \<or> tok_type t = TOK_OR then
        (case stack of
           b # a # st \<Rightarrow>
             eval_rpn_loop idx ts ((if tok_type t = TOK_AND then op_and a b else op_or a b) # st)
         | _ \<Rightarrow> None)
      else eval_rpn_loop idx ts stack)"

definition eval_rpn :: "IndexData \<Rightarrow> Token list \<Rightarrow> u32 list option" where
  "eval_rpn idx rpn =
     (case eval_rpn_loop idx rpn [] of
        Some [out] \<Rightarrow> Some out
      | _ \<Rightarrow> None)"

subsection \<open>Result presentation\<close>

text \<open>The decimal digits that \<open>printf\<close> writes for \<open>%u\<close>.\<close>

definition digit_char :: "nat \<Rightarrow> char" where
  "digit_char d = ''0123456789'' ! d"

function dec_digits :: "nat \<Rightarrow> string" where
  "dec_digits n =
     (if n < 10 then [digit_char n]
      else dec_digits (n div 10) @ [digit_char (n mod 10)])"
  by pat_completeness auto
termination
  by (relation "measure id") auto

declare dec_digits.simps [simp del]

definition total_line :: "u32 \<Rightarrow> string" where
  "total_line c = ''TOTAL'' @ [CHR 0x09] @ dec_digits (unat c) @ [CHR 0x0A]"

definition doc_line :: "IndexData \<Rightarrow> u32 list \<Rightarrow> nat \<Rightarrow> string" where
  "doc_line idx ids i =
     (let doc_id = ids ! i;
          m = metas_by_id idx (unat doc_id);
          known = (doc_id \<le> max_doc_id idx \<and> title m \<noteq> None \<and> url m \<noteq> None);
          ti = (if known then the (title m) else []);
          ur = (if known then the (url m) else [])
      in ''DOC'' @ [CHR 0x09] @ dec_digits (unat doc_id) @ [CHR 0x09] @ ti @ [CHR 0x09] @ ur
           @ [CHR 0x0A])"

text \<open>
  The output is the list of the lines printed.  \<open>count\<close> is the 32-bit field of the
  result; \<open>offset + limit\<close> is the 32-bit sum of the source, which wraps around.
\<close>

definition print_results :: "IndexData \<Rightarrow> u32 list \<Rightarrow> u32 \<Rightarrow> u32 \<Rightarrow> string list" where
  "print_results idx ids offset limit =
     (let count = (word_of_nat (length ids) :: u32) in
      total_line count #
       (if offset \<ge> count then []
        else
          let end0 = offset + limit;
              end1 = (if end0 > count then count else end0)
          in map (doc_line idx ids) [unat offset ..< unat end1]))"

text \<open>
  \<open>evaluate\<close> is the part of \<open>run_single_query\<close> that computes the result list:
  an empty token stream is answered with the empty result before any parsing.
\<close>

definition evaluate :: "IndexData \<Rightarrow> string \<Rightarrow> error + u32 list" where
  "evaluate idx query =
     (let tokens = tokenize_query query in
      if tokens = [] then Inr []
      else
        (case to_rpn tokens of
           None \<Rightarrow> Inl ParseError
         | Some rpn \<Rightarrow>
            (case eval_rpn idx rpn of
               None \<Rightarrow> Inl EvalError
             | Some result \<Rightarrow> Inr result)))"

definition run_single_query :: "IndexData \<Rightarrow> string \<Rightarrow> u32 \<Rightarrow> u32 \<Rightarrow> error + string list" where
  "run_single_query idx query offset limit =
     (let tokens = tokenize_query query in
      if tokens = [] then Inr [''TOTAL'' @ [CHR 0x09] @ ''0'' @ [CHR 0x0A]]
      else
        (case to_rpn tokens of
           None \<Rightarrow> Inl ParseError
         | Some rpn \<Rightarrow>
            (case eval_rpn idx rpn of
               None \<Rightarrow> Inl EvalError
             | Some result \<Rightarrow> Inr (print_results idx result offset limit))))"

section \<open>Index builder (index\_builder.cpp)\<close>

type_synonym u64 = "64 word"

text \<open>
  An entry of the open-addressed term table.  \<open>postings_count\<close> is the length of
  \<open>postings\<close>; the capacity bookkeeping of the buffer is left out and allocation is
  taken to succeed, so that the one failure of \<open>ensure_postings_cap\<close> that remains is
  its guard: a buffer never grows beyond \<open>2^31\<close> ids.
\<close>

record TermEntry =
  te_term :: string
  postings :: "u32 list"
  last_doc_id :: u32
  postings_offset_bytes :: nat
  used :: bool

definition empty_entry :: TermEntry where
  "empty_entry = \<lparr>te_term = [], postings = [], last_doc_id = 0,
     postings_offset_bytes = 0, used = False\<rparr>"

fun djb2_loop :: "u64 \<Rightarrow> string \<Rightarrow> u64" where
  "djb2_loop h [] = h"
| "djb2_loop h (c # s) = djb2_loop ((push_bit 5 h + h) + of_char c) s"

definition djb2 :: "string \<Rightarrow> u64" where
  "djb2 s = djb2_loop 5381 s"

definition ensure_postings_cap :: "TermEntry \<Rightarrow> nat \<Rightarrow> bool" where
  "ensure_postings_cap entry need = (need \<le> 2 ^ 31)"

text \<open>The tail of the loop body of \<open>add_term_doc\<close>, once the slot of the term is found.\<close>

definition record_doc :: "TermEntry \<Rightarrow> u32 \<Rightarrow> TermEntry option" where
  "record_doc entry doc_id =
     (if length (postings entry) = 0 \<or> last_doc_id entry \<noteq> doc_id then
        (if \<not> ensure_postings_cap entry (length (postings entry) + 1) then None
         else Some (entry\<lparr>postings := postings entry @ [doc_id], last_doc_id := doc_id\<rparr>))
      else Some entry)"

function add_term_doc_loop ::
  "TermEntry list \<Rightarrow> nat \<Rightarrow> string \<Rightarrow> u32 \<Rightarrow> nat \<Rightarrow> nat \<Rightarrow> TermEntry list option" where
  "add_term_doc_loop table capacity tm doc_id idx step =
     (if step < capacity then
        (let entry = table ! idx in
         if \<not> used entry then
           (case record_doc
                   (entry\<lparr>te_term := tm, postings := [], last_doc_id := 0,
                      postings_offset_bytes := 0, used := True\<rparr>) doc_id of
              None \<Rightarrow> None
            | Some e \<Rightarrow> Some (table[idx := e]))
         else if te_term entry \<noteq> tm then
           add_term_doc_loop table capacity tm doc_id ((idx + 1) mod capacity) (step + 1)
         else
           (case record_doc entry doc_id of
              None \<Rightarrow> None
            | Some e \<Rightarrow> Some (table[idx := e])))
      else None)"
  by pat_completeness auto
termination
  by (relation "measure (\<lambda>(table, capacity, tm, doc_id, idx, step). capacity - step)") auto

declare add_term_doc_loop.simps [simp del]

definition add_term_doc :: "TermEntry list \<Rightarrow> nat \<Rightarrow> string \<Rightarrow> u32 \<Rightarrow> TermEntry list option" where
  "add_term_doc table capacity tm doc_id =
     add_term_doc_loop table capacity tm doc_id (unat (djb2 tm) mod capacity) 0"

text \<open>
  The scan of stemmed.txt in \<open>main\<close>.  A document line is given parsed: the
  \<open>doc_id\<close> read by \<open>parse_u32\<close> and the whitespace-separated tokens of its body.
  The first failure of \<open>add_term_doc\<close> ends the run with status 1.
\<close>

fun add_line_tokens :: "TermEntry list \<Rightarrow> nat \<Rightarrow> u32 \<Rightarrow> string list \<Rightarrow> TermEntry list option" where
  "add_line_tokens table capacity doc_id [] = Some table"
| "add_line_tokens table capacity doc_id (tk # tks) =
     (if tk \<noteq> [] then
        (case add_term_doc table capacity tk doc_id of
           None \<Rightarrow> None
         | Some table' \<Rightarrow> add_line_tokens table' capacity doc_id tks)
      else add_line_tokens table capacity doc_id tks)"

fun scan_stemmed ::
  "TermEntry list \<Rightarrow> nat \<Rightarrow> (u32 \<times> string list) list \<Rightarrow> TermEntry list option" where
  "scan_stemmed table capacity [] = Some table"
| "scan_stemmed table capacity ((doc_id, body) # lines) =
     (case add_line_tokens table capacity doc_id body of
        None \<Rightarrow> None
      | Some table' \<Rightarrow> scan_stemmed table' capacity lines)"

definition term_hash_capacity :: "nat option \<Rightarrow> nat" where
  "term_hash_capacity arg =
     (let c = (case arg of None \<Rightarrow> 2 ^ 20 | Some n \<Rightarrow> n) in
      if c < 1024 then 1024 else c)"

text \<open>
  The used slots are collected in table order and sorted with \<open>strcmp\<close> on the terms.
  The byte-wise order of \<open>strcmp\<close> is the lexicographic order of \<open>string\<close>; the
  sort is any sort by that key, here \<open>sort_key\<close>.
\<close>

definition sorted_terms :: "TermEntry list \<Rightarrow> TermEntry list" where
  "sorted_terms table = sort_key te_term (filter used table)"

text \<open>
  Writing postings.bin: each entry takes the current byte offset, its ids follow the
  ids written so far.  The result is the entries with their offsets and the payload.
\<close>

fun write_postings :: "TermEntry list \<Rightarrow> nat \<Rightarrow> TermEntry list \<times> u32 list" where
  "write_postings [] offset = ([], [])"
| "write_postings (e # es) offset =
     (let e' = e\<lparr>postings_offset_bytes := offset\<rparr>;
          offset' = (if length (postings e) > 0 then offset + length (postings e) * 4 else offset);
          (es', payload) = write_postings es offset'
      in (e' # es', postings e @ payload))"

definition write_lexicon_record :: "TermEntry \<Rightarrow> LexEntry" where
  "write_lexicon_record e =
     (let term_len = (if length (te_term e) > 65535 then 65535 else length (te_term e)) in
      \<lparr>lex_term = take term_len (te_term e),
       postings_offset = postings_offset_bytes e,
       postings_count = length (postings e)\<rparr>)"

text \<open>
  The builder up to lexicon.bin: the payload of postings.bin and the records of
  lexicon.bin, or \<open>None\<close> when the scan fails.
\<close>

definition build_index ::
  "nat option \<Rightarrow> (u32 \<times> string list) list \<Rightarrow> (u32 list \<times> LexEntry list) option" where
  "build_index arg lines =
     (let capacity = term_hash_capacity arg in
      case scan_stemmed (replicate capacity empty_entry) capacity lines of
        None \<Rightarrow> None
      | Some table \<Rightarrow>
          (let (entries, payload) = write_postings (sorted_terms table) 0
           in Some (payload, map write_lexicon_record entries)))"

text \<open>
  The metadata pass over raw\_text.tsv and the doc ids of forward.bin.  A record of the TSV
  is given parsed, with the \<open>doc_id\<close> read by \<open>parse_u32\<close>.  The metadata array,
  zeroed where nothing was stored, is a function of the doc id; what remains of
  \<open>ensure_doc_meta_cap\<close> is its guard, which refuses ids from \<open>2^31\<close> on.
  \<open>forward_doc_ids\<close> is the \<open>doc_id\<close> column of the records written, in file order:
  the list that \<open>load_forward\<close> stores as the universe.
\<close>

record RawDoc =
  raw_doc_id :: u32
  raw_url :: string
  raw_title :: string

record BuilderDocMeta =
  bm_doc_id :: u32
  bm_title :: "string option"
  bm_url :: "string option"

definition ensure_doc_meta_cap :: "nat \<Rightarrow> bool" where
  "ensure_doc_meta_cap need = (need < 2 ^ 31)"

fun collect_metas ::
  "(nat \<Rightarrow> BuilderDocMeta) \<Rightarrow> u32 \<Rightarrow> RawDoc list \<Rightarrow> ((nat \<Rightarrow> BuilderDocMeta) \<times> u32) option" where
  "collect_metas metas max_id [] = Some (metas, max_id)"
| "collect_metas metas max_id (d # ds) =
     (let doc_id = raw_doc_id d in
      if doc_id = 0 then collect_metas metas max_id ds
      else if \<not> ensure_doc_meta_cap (unat doc_id) then None
      else if bm_doc_id (metas (unat doc_id)) = 0 then
        collect_metas
          (metas(unat doc_id := \<lparr>bm_doc_id = doc_id, bm_title = Some (raw_title d),
                                  bm_url = Some (raw_url d)\<rparr>))
          (if doc_id > max_id then doc_id else max_id) ds
      else collect_metas metas max_id ds)"

definition forward_doc_ids :: "(nat \<Rightarrow> BuilderDocMeta) \<Rightarrow> u32 \<Rightarrow> u32 list" where
  "forward_doc_ids metas max_id =
     map (\<lambda>i. bm_doc_id (metas i)) (filter (\<lambda>i. bm_doc_id (metas i) \<noteq> 0) [1..<Suc (unat max_id)])"

definition no_meta :: "nat \<Rightarrow> BuilderDocMeta" where
  "no_meta i = \<lparr>bm_doc_id = 0, bm_title = None, bm_url = None\<rparr>"

text \<open>The ids a lexicon record points at, as the search engine slices them.\<close>

definition posting_region :: "u32 list \<Rightarrow> LexEntry \<Rightarrow> u32 list" where
  "posting_region payload r = take (postings_count r) (drop (postings_offset r div 4) payload)"

text \<open>
  From the builder's files to the loaded index.  \<open>main\<close> of the builder scans
  stemmed.txt, writes postings.bin and lexicon.bin, runs the metadata pass and writes
  forward.bin; a failure of the scan or of the metadata pass ends the run with status 1
  before forward.bin exists.  \<open>load_index\<close> of the search engine reads the three files
  back: the lexicon records and the payload as written, and from forward.bin the
  \<open>doc_id\<close> column as the universe and the titles and urls by \<open>doc_id\<close>.  A title or
  url is written with the 16-bit length \<open>strlen mod 65536\<close>.
\<close>

definition written_string :: "string option \<Rightarrow> string option" where
  "written_string s = map_option (\<lambda>t. take (length t mod 65536) t) s"

definition loaded_index ::
  "u32 list \<Rightarrow> LexEntry list \<Rightarrow> (nat \<Rightarrow> BuilderDocMeta) \<Rightarrow> u32 \<Rightarrow> IndexData" where
  "loaded_index payload lxs metas max_id =
     \<lparr>lexicon = lxs,
      postings_data = payload,
      metas_by_id = (\<lambda>i. \<lparr>title = written_string (bm_title (metas i)),
                            url = written_string (bm_url (metas i))\<rparr>),
      max_doc_id = max_id,
      universe_ids = forward_doc_ids metas max_id\<rparr>"

definition build_and_load ::
  "nat option \<Rightarrow> (u32 \<times> string list) list \<Rightarrow> RawDoc list \<Rightarrow> IndexData option" where
  "build_and_load arg lines docs =
     (case build_index arg lines of
        None \<Rightarrow> None
      | Some (payload, lxs) \<Rightarrow>
          (case collect_metas no_meta 0 docs of
             None \<Rightarrow> None
           | Some (metas, max_id) \<Rightarrow> Some (loaded_index payload lxs metas max_id)))"

section \<open>Specification-side definitions\<close>

text \<open>
  Implicit conjunction as the specification words it (section 4.4): between two
  consecutive tokens an AND is due when the first is a term or a closing parenthesis and
  the second is a term, an opening parenthesis or a NOT.
\<close>

definition and_needed_between :: "Token \<Rightarrow> Token \<Rightarrow> bool" where
  "and_needed_between prev cur =
     (tok_type prev \<in> {TOK_TERM, TOK_RPAREN} \<and> tok_type cur \<in> {TOK_TERM, TOK_LPAREN, TOK_NOT})"

fun insert_implicit_and :: "Token list \<Rightarrow> Token list" where
  "insert_implicit_and [] = []"
| "insert_implicit_and [x] = [x]"
| "insert_implicit_and (x # y # zs) =
     x # (if and_needed_between x y then [mk_token TOK_AND None] else [])
       @ insert_implicit_and (y # zs)"

text \<open>The tokens that follow a token \<open>p\<close>, with the conjunctions due between them.\<close>

fun gaps_after :: "Token \<Rightarrow> Token list \<Rightarrow> Token list" where
  "gaps_after p [] = []"
| "gaps_after p (y # ys) =
     (if and_needed_between p y then [mk_token TOK_AND None] else []) @ y # gaps_after y ys"

text \<open>
  The invariants of the data model (section 3) that the evaluator relies on: the
  universe is strictly ascending, and the region of every lexicon entry is strictly
  ascending and lies inside the universe.
\<close>

definition index_sorted :: "IndexData \<Rightarrow> bool" where
  "index_sorted idx =
     (sorted_wrt (<) (universe_ids idx) \<and>
      list_all (\<lambda>r. sorted_wrt (<) (posting_region (postings_data idx) r)) (lexicon idx))"

definition index_wf :: "IndexData \<Rightarrow> bool" where
  "index_wf idx =
     (index_sorted idx \<and>
      list_all (\<lambda>r. list_all (\<lambda>d. d \<in> set (universe_ids idx))
                      (posting_region (postings_data idx) r))
        (lexicon idx))"

section \<open>Definitions used in the proofs\<close>

subsection \<open>Lexer and evaluator\<close>

text \<open>
  \<open>lone_byte ch rest\<close>: the byte \<open>ch\<close>, followed by \<open>rest\<close>, starts no token and is
  skipped by the lexer.
\<close>

definition lone_byte :: "char \<Rightarrow> string \<Rightarrow> bool" where
  "lone_byte ch rest =
     (\<not> isspace_c ch \<and> \<not> isalnum_c ch \<and> ch \<noteq> CHR ''!'' \<and> ch \<noteq> CHR ''('' \<and> ch \<noteq> CHR '')''
      \<and> \<not> (ch = CHR ''&'' \<and> rest \<noteq> [] \<and> hd rest = CHR ''&'')
      \<and> \<not> (ch = CHR ''|'' \<and> rest \<noteq> [] \<and> hd rest = CHR ''|''))"

text \<open>What every entry of the evaluation stack is on a well-formed index.\<close>

definition good_list :: "IndexData \<Rightarrow> u32 list \<Rightarrow> bool" where
  "good_list idx l = (sorted_wrt (<) l \<and> set l \<subseteq> set (universe_ids idx))"

text \<open>
  The posting list that the evaluator pushes for a term: empty for a term that is not
  found, the region of its lexicon entry otherwise, \<open>None\<close> when the region leaves the
  postings array.
\<close>

definition load_term :: "IndexData \<Rightarrow> string \<Rightarrow> u32 list option" where
  "load_term idx tx =
     (case lexicon_find idx tx of
        None \<Rightarrow> Some []
      | Some (offset, cnt) \<Rightarrow>
          if offset div 4 + cnt > length (postings_data idx) then None
          else Some (take cnt (drop (offset div 4) (postings_data idx))))"

text \<open>
  An index of the three documents of the specification's example, with the terms
  \<open>brown\<close> (document 1) and \<open>fox\<close> (documents 1, 2, 3).
\<close>

definition demo_index :: IndexData where
  "demo_index =
     \<lparr>lexicon = [\<lparr>lex_term = ''brown'', postings_offset = 0, postings_count = 1\<rparr>,
                 \<lparr>lex_term = ''fox'', postings_offset = 4, postings_count = 3\<rparr>],
      postings_data = [1, 1, 2, 3],
      metas_by_id = (\<lambda>i. if i = 1 then \<lparr>title = Some ''Alpha'', url = Some ''u1''\<rparr>
                         else if i = 2 then \<lparr>title = Some ''Bravo'', url = Some ''u2''\<rparr>
                         else if i = 3 then \<lparr>title = Some ''Charlie'', url = Some ''u3''\<rparr>
                         else \<lparr>title = None, url = None\<rparr>),
      max_doc_id = 3,
      universe_ids = [1, 2, 3]\<rparr>"

text \<open>
  \<open>plain_absent idx t\<close>: the token \<open>t\<close> is no NOT, and if it is a term, its text is
  not a term of the lexicon.
\<close>

definition term_absent :: "IndexData \<Rightarrow> Token \<Rightarrow> bool" where
  "term_absent idx t =
     (case tok_text t of
        None \<Rightarrow> True
      | Some tx \<Rightarrow> tx \<notin> set (map lex_term (lexicon idx)))"

definition plain_absent :: "IndexData \<Rightarrow> Token \<Rightarrow> bool" where
  "plain_absent idx t = (tok_type t \<noteq> TOK_NOT \<and> (tok_type t \<noteq> TOK_TERM \<or> term_absent idx t))"

text \<open>
  The strict left-to-right maxima of a list that exceed a floor \<open>m\<close> (no floor for
  \<open>None\<close>).  They are the ids of an operand, sorted or not, that a merge against a
  strictly ascending list can meet.
\<close>

definition above :: "u32 option \<Rightarrow> u32 \<Rightarrow> bool" where
  "above m x = (case m of None \<Rightarrow> True | Some v \<Rightarrow> v < x)"

fun records_above :: "u32 option \<Rightarrow> u32 list \<Rightarrow> u32 list" where
  "records_above m [] = []"
| "records_above m (x # xs) =
     (if above m x then x # records_above (Some x) xs else records_above m xs)"

subsection \<open>Term table\<close>

text \<open>A slot of the metadata array is empty or holds its own index as \<open>doc_id\<close>.\<close>

definition metas_inv :: "(nat \<Rightarrow> BuilderDocMeta) \<Rightarrow> bool" where
  "metas_inv metas = (\<forall>i. bm_doc_id (metas i) = 0 \<or> (i < 2 ^ 31 \<and> bm_doc_id (metas i) = word_of_nat i))"

text \<open>
  \<open>find_slot\<close> is the search of \<open>add_term_doc\<close> alone: the slot where the loop stops,
  free or holding the term.  \<open>fresh_entry\<close> is the entry the loop initialises in a free
  slot.
\<close>

definition fresh_entry :: "TermEntry \<Rightarrow> string \<Rightarrow> TermEntry" where
  "fresh_entry entry tm = entry\<lparr>te_term := tm, postings := [], last_doc_id := 0,
     postings_offset_bytes := 0, used := True\<rparr>"

function find_slot :: "TermEntry list \<Rightarrow> nat \<Rightarrow> string \<Rightarrow> nat \<Rightarrow> nat \<Rightarrow> nat option" where
  "find_slot table capacity tm idx step =
     (if step < capacity then
        (let entry = table ! idx in
         if \<not> used entry then Some idx
         else if te_term entry \<noteq> tm then
           find_slot table capacity tm ((idx + 1) mod capacity) (step + 1)
         else Some idx)
      else None)"
  by pat_completeness auto
termination
  by (relation "measure (\<lambda>(table, capacity, tm, idx, step). capacity - step)") auto

declare find_slot.simps [simp del]

text \<open>
  The invariant of a posting list while the lines up to \<open>doc_id\<close> \<open>d\<close> are read:
  strictly ascending, bounded by \<open>d\<close>, and ending in \<open>last_doc_id\<close>.
\<close>

definition entry_ok :: "u32 \<Rightarrow> TermEntry \<Rightarrow> bool" where
  "entry_ok d e = (sorted_wrt (<) (postings e) \<and> list_all (\<lambda>p. p \<le> d) (postings e)
     \<and> (postings e = [] \<or> last (postings e) = last_doc_id e))"

definition table_ok :: "u32 \<Rightarrow> TermEntry list \<Rightarrow> bool" where
  "table_ok d table = list_all (\<lambda>e. \<not> used e \<or> entry_ok d e) table"

text \<open>
  The invariant of linear probing: every used slot is reached from the home slot of its
  term along a path of used slots that hold other terms.
\<close>

definition slot_hash :: "string \<Rightarrow> nat \<Rightarrow> nat" where
  "slot_hash tm capacity = unat (djb2 tm) mod capacity"

definition probe_path :: "TermEntry list \<Rightarrow> string \<Rightarrow> nat \<Rightarrow> nat \<Rightarrow> bool" where
  "probe_path table tm start n =
     list_all (\<lambda>k. used (table ! ((start + k) mod length table))
                  \<and> te_term (table ! ((start + k) mod length table)) \<noteq> tm) [0..<n]"

definition slot_reached :: "TermEntry list \<Rightarrow> nat \<Rightarrow> bool" where
  "slot_reached table i =
     list_ex (\<lambda>n. i = (slot_hash (te_term (table ! i)) (length table) + n) mod length table
                \<and> probe_path table (te_term (table ! i))
                     (slot_hash (te_term (table ! i)) (length table)) n)
       [0..<length table]"

definition table_inv :: "TermEntry list \<Rightarrow> bool" where
  "table_inv table = list_all (\<lambda>i. \<not> used (table ! i) \<or> slot_reached table i) [0..<length table]"

text \<open>The non-empty tokens of the input, and the terms of the used slots.\<close>

definition line_tokens :: "(u32 \<times> string list) list \<Rightarrow> string set" where
  "line_tokens lines = {tk \<in> set (concat (map snd lines)). tk \<noteq> []}"

definition used_terms :: "TermEntry list \<Rightarrow> string set" where
  "used_terms table = te_term ` {e \<in> set table. used e}"

text \<open>Terms of 65536 bytes: 65535 times \<open>a\<close>, then one more byte.\<close>

definition long_term :: "char \<Rightarrow> string" where
  "long_term c = replicate 65535 CHR ''a'' @ [c]"

definition long_term_lines :: "(u32 \<times> string list) list" where
  "long_term_lines = [(1, [long_term CHR ''b'', long_term CHR ''c''])]"

subsection \<open>What the builder writes\<close>

text \<open>
  The output of the builder, said without the hash table.  \<open>occurrences tm lines\<close> is
  the \<open>doc_id\<close> of every occurrence of the token \<open>tm\<close>, in input order; the posting
  list of a term is this sequence with each run of equal ids collapsed, the terms are the
  distinct non-empty tokens in byte-wise order, and \<open>layout\<close> gives every term its
  lexicon record, with the byte offsets running through the payload.
\<close>

definition line_occ :: "string \<Rightarrow> u32 \<Rightarrow> string list \<Rightarrow> u32 list" where
  "line_occ tm d body = map (\<lambda>tk. d) (filter (\<lambda>tk. tk = tm) body)"

definition occurrences :: "string \<Rightarrow> (u32 \<times> string list) list \<Rightarrow> u32 list" where
  "occurrences tm lines = concat (map (\<lambda>l. line_occ tm (fst l) (snd l)) lines)"

definition built_terms :: "(u32 \<times> string list) list \<Rightarrow> string list" where
  "built_terms lines = sort (remdups (filter (\<lambda>tk. tk \<noteq> []) (concat (map snd lines))))"

definition built_postings :: "(u32 \<times> string list) list \<Rightarrow> string \<Rightarrow> u32 list" where
  "built_postings lines tm = remdups_adj (occurrences tm lines)"

fun layout :: "nat \<Rightarrow> (string \<times> u32 list) list \<Rightarrow> LexEntry list" where
  "layout off [] = []"
| "layout off ((tm, ps) # rest) =
     \<lparr>lex_term = take 65535 tm, postings_offset = off, postings_count = length ps\<rparr>
       # layout (off + 4 * length ps) rest"

definition built_payload :: "(u32 \<times> string list) list \<Rightarrow> u32 list" where
  "built_payload lines = concat (map (built_postings lines) (built_terms lines))"

definition built_lexicon :: "(u32 \<times> string list) list \<Rightarrow> LexEntry list" where
  "built_lexicon lines = layout 0 (map (\<lambda>tm. (tm, built_postings lines tm)) (built_terms lines))"

text \<open>
  The invariant of the scan for the contents of the table: \<open>seq tm\<close> is the sequence of
  ids recorded for \<open>tm\<close> so far.  No slot holds the empty term, a used slot holds the
  collapsed sequence of its term and remembers its last id, and a term without a slot has
  not occurred.
\<close>

definition content_inv :: "(string \<Rightarrow> u32 list) \<Rightarrow> TermEntry list \<Rightarrow> bool" where
  "content_inv seq table =
     ([] \<notin> used_terms table
      \<and> (\<forall>e\<in>set table. used e \<longrightarrow>
            postings e = remdups_adj (seq (te_term e)) \<and> postings e \<noteq> []
            \<and> last_doc_id e = last (postings e))
      \<and> (\<forall>t. t \<noteq> [] \<longrightarrow> t \<notin> used_terms table \<longrightarrow> seq t = []))"

text \<open>Every slot of the metadata array that is set lies at or below \<open>max_doc_id\<close>.\<close>

definition max_bound :: "(nat \<Rightarrow> BuilderDocMeta) \<Rightarrow> u32 \<Rightarrow> bool" where
  "max_bound metas max_id = (\<forall>i. bm_doc_id (metas i) \<noteq> 0 \<longrightarrow> i \<le> unat max_id)"

text \<open>
  Inputs of the builder.  \<open>demo_lines\<close> and \<open>demo_docs\<close> are the three documents of the
  specification's example; \<open>descending_lines\<close> has its two documents in descending
  \<open>doc_id\<close> order; \<open>zero_id_lines\<close> and \<open>zero_id_docs\<close> have a document whose
  \<open>doc_id\<close> is read as 0.
\<close>

definition demo_lines :: "(u32 \<times> string list) list" where
  "demo_lines = [(1, [''brown'', ''fox'']), (2, [''fox'']), (3, [''fox''])]"

definition demo_docs :: "RawDoc list" where
  "demo_docs = [\<lparr>raw_doc_id = 1, raw_url = ''u1'', raw_title = ''Alpha''\<rparr>,
                \<lparr>raw_doc_id = 2, raw_url = ''u2'', raw_title = ''Bravo''\<rparr>,
                \<lparr>raw_doc_id = 3, raw_url = ''u3'', raw_title = ''Charlie''\<rparr>]"

definition descending_lines :: "(u32 \<times> string list) list" where
  "descending_lines = [(2, [''fox'']), (1, [''fox''])]"

definition two_docs :: "RawDoc list" where
  "two_docs = [\<lparr>raw_doc_id = 1, raw_url = ''u1'', raw_title = ''Alpha''\<rparr>,
               \<lparr>raw_doc_id = 2, raw_url = ''u2'', raw_title = ''Bravo''\<rparr>]"

definition zero_id_lines :: "(u32 \<times> string list) list" where
  "zero_id_lines = [(0, [''fox'']), (1, [''fox''])]"

definition zero_id_docs :: "RawDoc list" where
  "zero_id_docs = [\<lparr>raw_doc_id = 0, raw_url = ''u0'', raw_title = ''Zero''\<rparr>,
                   \<lparr>raw_doc_id = 1, raw_url = ''u1'', raw_title = ''Alpha''\<rparr>]"

section \<open>Properties of the stemmer and the lexer\<close>

subsection \<open>Stemmer\<close>

lemma ends_with_suffix: "ends_with t (length t) sfx = suffix sfx t"
proof (cases "length t < length sfx")
  case True
  then show ?thesis
    by (auto simp: ends_with_def dest: suffix_length_le)
next
  case False
  have "suffix sfx t \<longleftrightarrow> drop (length t - length sfx) t = sfx"
  proof
    assume "suffix sfx t"
    then obtain p where "t = p @ sfx" by (auto simp: suffix_def)
    then show "drop (length t - length sfx) t = sfx" by simp
  next
    assume "drop (length t - length sfx) t = sfx"
    then show "suffix sfx t" by (metis suffix_drop)
  qed
  with False show ?thesis
    by (simp add: ends_with_def)
qed

lemma suffix_single: "suffix [c] t \<longleftrightarrow> (t \<noteq> [] \<and> t ! (length t - 1) = c)"
proof
  assume "suffix [c] t"
  then obtain p where "t = p @ [c]" by (auto simp: suffix_def)
  then show "t \<noteq> [] \<and> t ! (length t - 1) = c" by simp
next
  assume a: "t \<noteq> [] \<and> t ! (length t - 1) = c"
  then have "t = butlast t @ [c]"
    by (metis append_butlast_last_id last_conv_nth)
  then show "suffix [c] t" by (metis suffixI)
qed

lemma ies_update:
  assumes "4 < length t"
  shows "take (length t - 2) (t[length t - 3 := c]) = take (length t - 3) t @ [c]"
proof -
  have "length t - 2 = Suc (length t - 3)" using assms by simp
  moreover have "length t - 3 < length t" using assms by simp
  ultimately show ?thesis by (simp add: take_Suc_conv_app_nth)
qed

lemma stem_token_table: "stem_token t = stem_by_table t"
  by (simp add: stem_token_def Let_def ends_with_suffix stem_by_table_def
      first_matching_rule_def rule_table_def rule_matches_def apply_rule_def
      suffix_single ies_update)

lemma stem_token_nonempty: "t \<noteq> [] \<Longrightarrow> stem_token t \<noteq> []"
  by (auto simp: stem_token_def Let_def)

lemma stem_term_inplace_nonempty: "t \<noteq> [] \<Longrightarrow> stem_term_inplace t \<noteq> []"
  by (auto simp: stem_term_inplace_def Let_def)

text \<open>
  C3.  The offline stemmer \<open>stem_token\<close> and the query-time stemmer
  \<open>stem_term_inplace\<close> are the same function: every token is mapped to the same bytes
  by both.
\<close>

theorem stemmers_agree: "stem_term_inplace token = stem_token token"
  by (simp add: stem_term_inplace_def stem_token_def)

theorem stemmers_agree_witness:
  "stem_term_inplace ''Quickly'' = ''Quick'' \<and> stem_token ''Quickly'' = ''Quick''"
  using stemmers_agree [of "''Quickly''"]
  by (simp add: stem_token_def ends_with_def)

text \<open>
  C7.  \<open>stem_token\<close> applies the first rule of the ordered eight-rule table that
  matches the token (its length exceeds the rule's bound and it ends in the rule's
  suffix), and returns the token unchanged when its length is at most 2 or when no rule
  matches.
\<close>

theorem stem_token_first_matching_rule:
  "stem_token t = (case find (rule_matches t) rule_table of
                     None \<Rightarrow> t
                   | Some r \<Rightarrow> apply_rule t r)
   \<and> (length t \<le> 2 \<longrightarrow> stem_token t = t)
   \<and> (find (rule_matches t) rule_table = None \<longrightarrow> stem_token t = t)"
proof -
  have a: "stem_token t = (case find (rule_matches t) rule_table of
                     None \<Rightarrow> t | Some r \<Rightarrow> apply_rule t r)"
    using stem_token_table [of t]
    by (simp add: stem_by_table_def first_matching_rule_def)
  have b: "length t \<le> 2 \<longrightarrow> stem_token t = t"
    by (simp add: stem_token_def)
  from a b show ?thesis by simp
qed

theorem stem_token_first_matching_rule_witness:
  "length ''ox'' \<le> 2 \<and> find (rule_matches ''ox'') rule_table = None
   \<and> stem_token ''ox'' = ''ox''
   \<and> find (rule_matches ''ponies'') rule_table
        = Some \<lparr>min_len = 4, rule_suffix = ''ies'', strip = 3, replacement = ''y''\<rparr>
   \<and> stem_token ''ponies'' = ''pony''"
proof -
  have n: "find (rule_matches ''ox'') rule_table = None"
    by (simp add: rule_table_def rule_matches_def)
  have s: "suffix sfx ''ponies'' = ends_with ''ponies'' (length ''ponies'') sfx" for sfx
    by (simp only: ends_with_suffix)
  have p: "find (rule_matches ''ponies'') rule_table
        = Some \<lparr>min_len = 4, rule_suffix = ''ies'', strip = 3, replacement = ''y''\<rparr>"
    by (simp add: rule_table_def rule_matches_def s ends_with_def)
  show ?thesis
    using stem_token_first_matching_rule [of "''ox''"]
      stem_token_first_matching_rule [of "''ponies''"] n p
    by (simp add: apply_rule_def)
qed

subsection \<open>Lexer\<close>

lemma insert_implicit_and_Cons: "insert_implicit_and (x # xs) = x # gaps_after x xs"
  by (induction xs arbitrary: x) auto

lemma expand_loop_gaps:
  "0 < t \<Longrightarrow> t \<le> length raw \<Longrightarrow>
   expand_loop raw t acc = acc @ gaps_after (raw ! (t - 1)) (drop t raw)"
proof (induction raw t acc rule: expand_loop.induct)
  case (1 raw t expanded)
  show ?case
  proof (cases "t < length raw")
    case True
    then have d: "drop t raw = raw ! t # drop (Suc t) raw"
      by (simp add: Cons_nth_drop_Suc)
    from True 1 show ?thesis
      by (subst expand_loop.simps)
        (simp add: d and_needed_between_def is_operand_end_def is_operand_start_def)
  next
    case False
    with 1 show ?thesis by (subst expand_loop.simps) simp
  qed
qed

lemma expand_loop_spec: "expand_loop raw 0 [] = insert_implicit_and raw"
proof (cases raw)
  case Nil
  then show ?thesis by (subst expand_loop.simps) simp
next
  case (Cons x xs)
  have "expand_loop raw 0 [] = expand_loop raw 1 [x]"
    using Cons by (subst expand_loop.simps) simp
  also have "\<dots> = [x] @ gaps_after (raw ! 0) (drop 1 raw)"
    using Cons by (subst expand_loop_gaps) simp_all
  finally show ?thesis using Cons by (simp add: insert_implicit_and_Cons)
qed

lemma tokenize_query_spec: "tokenize_query query = insert_implicit_and (tokenize_raw query)"
  by (simp add: tokenize_query_def expand_loop_spec)

text \<open>
  C6.  The post-pass of the lexer turns the raw token stream into the stream with an AND
  put between two consecutive raw tokens exactly when the first is a term or a closing
  parenthesis and the second is a term, an opening parenthesis or a NOT; the raw tokens
  themselves are kept, in order.
\<close>

theorem implicit_and_insertion:
  "expand_loop raw 0 [] = insert_implicit_and raw
   \<and> tokenize_query query = insert_implicit_and (tokenize_raw query)"
  by (simp add: expand_loop_spec tokenize_query_spec)

theorem implicit_and_insertion_witness:
  "tokenize_query ''a (b'' =
     [mk_token TOK_TERM (Some ''a''), mk_token TOK_AND None, mk_token TOK_LPAREN None,
      mk_token TOK_TERM (Some ''b'')]"
  using implicit_and_insertion [of "[]" "''a (b''"]
  by (simp add: isspace_c_def isalnum_c_def tolower_c_def stem_term_inplace_def
      and_needed_between_def mk_token_def)

subsection \<open>Lexing a query in parentheses\<close>

lemma isalnum_not_special:
  "isalnum_c c \<Longrightarrow> c \<noteq> CHR ''&'' \<and> c \<noteq> CHR ''|'' \<and> c \<noteq> CHR ''!''
     \<and> c \<noteq> CHR ''('' \<and> c \<noteq> CHR '')'' \<and> \<not> isspace_c c"
  by (auto simp: isalnum_c_def isspace_c_def)

lemma tokenize_raw_space: "isspace_c ch \<Longrightarrow> tokenize_raw (ch # rest) = tokenize_raw rest"
  by simp

lemma tokenize_raw_and:
  "tokenize_raw (CHR ''&'' # CHR ''&'' # r) = mk_token TOK_AND None # tokenize_raw r"
  by (simp add: isspace_c_def)

lemma tokenize_raw_or:
  "tokenize_raw (CHR ''|'' # CHR ''|'' # r) = mk_token TOK_OR None # tokenize_raw r"
  by (simp add: isspace_c_def)

lemma tokenize_raw_not:
  "tokenize_raw (CHR ''!'' # r) = mk_token TOK_NOT None # tokenize_raw r"
  by (simp add: isspace_c_def)

lemma tokenize_raw_lparen:
  "tokenize_raw (CHR ''('' # r) = mk_token TOK_LPAREN None # tokenize_raw r"
  by (simp add: isspace_c_def)

lemma tokenize_raw_rparen:
  "tokenize_raw (CHR '')'' # r) = mk_token TOK_RPAREN None # tokenize_raw r"
  by (simp add: isspace_c_def)

lemma tokenize_raw_alnum:
  "isalnum_c ch \<Longrightarrow> tokenize_raw (ch # rest) =
     mk_token TOK_TERM (Some (stem_term_inplace (map tolower_c (takeWhile isalnum_c (ch # rest)))))
       # tokenize_raw (dropWhile isalnum_c (ch # rest))"
  using isalnum_not_special [of ch] by simp

lemma tokenize_raw_skip: "lone_byte ch rest \<Longrightarrow> tokenize_raw (ch # rest) = tokenize_raw rest"
  by (auto simp: lone_byte_def)

lemma lone_byte_snoc: "lone_byte ch rest \<Longrightarrow> lone_byte ch (rest @ '')'')"
  by (cases rest) (auto simp: lone_byte_def)

lemma tokenize_raw_snoc_rparen:
  "tokenize_raw (q @ '')'') = tokenize_raw q @ [mk_token TOK_RPAREN None]"
proof (induction "length q" arbitrary: q rule: less_induct)
  case less
  show ?case
  proof (cases q)
    case Nil
    then show ?thesis by (simp add: isspace_c_def)
  next
    case (Cons ch rest)
    have IH: "tokenize_raw (r @ '')'') = tokenize_raw r @ [mk_token TOK_RPAREN None]"
      if "length r \<le> length rest" for r
      using less [of r] that Cons by simp
    consider (sp) "isspace_c ch"
      | (amp) r where "ch = CHR ''&''" "rest = CHR ''&'' # r"
      | (bar) r where "ch = CHR ''|''" "rest = CHR ''|'' # r"
      | (nt) "ch = CHR ''!''" | (lp) "ch = CHR ''(''" | (rp) "ch = CHR '')''"
      | (al) "isalnum_c ch"
      | (skip) "lone_byte ch rest"
      unfolding lone_byte_def by (cases rest) auto
    then show ?thesis
    proof cases
      case sp
      then show ?thesis using IH [of rest] Cons by simp
    next
      case amp
      then show ?thesis using IH [of r] Cons by (simp del: tokenize_raw.simps add: tokenize_raw_and)
    next
      case bar
      then show ?thesis using IH [of r] Cons by (simp del: tokenize_raw.simps add: tokenize_raw_or)
    next
      case nt
      then show ?thesis using IH [of rest] Cons by (simp del: tokenize_raw.simps add: tokenize_raw_not)
    next
      case lp
      then show ?thesis using IH [of rest] Cons by (simp del: tokenize_raw.simps add: tokenize_raw_lparen)
    next
      case rp
      then show ?thesis using IH [of rest] Cons by (simp del: tokenize_raw.simps add: tokenize_raw_rparen)
    next
      case al
      have nal: "\<not> isalnum_c CHR '')''" by (simp add: isalnum_c_def)
      have tw: "takeWhile isalnum_c (ch # rest @ '')'') = takeWhile isalnum_c (ch # rest)"
        using nal takeWhile_tail [of isalnum_c "CHR '')''" "ch # rest" "[]"] by simp
      have dw: "dropWhile isalnum_c (ch # rest @ '')'') = dropWhile isalnum_c (ch # rest) @ '')''"
        using nal dropWhile_append3 [of isalnum_c "CHR '')''" "ch # rest" "[]"] by simp
      have len: "length (dropWhile isalnum_c (ch # rest)) \<le> length rest"
        using al by (simp add: length_dropWhile_le)
      have "tokenize_raw (q @ '')'') =
          mk_token TOK_TERM (Some (stem_term_inplace (map tolower_c (takeWhile isalnum_c (ch # rest)))))
            # tokenize_raw (dropWhile isalnum_c (ch # rest) @ '')'')"
        unfolding Cons append_Cons tokenize_raw_alnum [OF al] tw dw ..
      also have "\<dots> = tokenize_raw q @ [mk_token TOK_RPAREN None]"
        unfolding Cons tokenize_raw_alnum [OF al] IH [OF len] by simp
      finally show ?thesis .
    next
      case skip
      have "tokenize_raw (q @ '')'') = tokenize_raw (rest @ '')'')"
        unfolding Cons append_Cons by (rule tokenize_raw_skip [OF lone_byte_snoc [OF skip]])
      also have "\<dots> = tokenize_raw rest @ [mk_token TOK_RPAREN None]"
        by (rule IH) simp
      also have "tokenize_raw rest = tokenize_raw q"
        unfolding Cons by (rule tokenize_raw_skip [OF skip, symmetric])
      finally show ?thesis .
    qed
  qed
qed

lemma tokenize_raw_wrap:
  "tokenize_raw (''!('' @ q @ '')'') =
     mk_token TOK_NOT None # mk_token TOK_LPAREN None # tokenize_raw q @ [mk_token TOK_RPAREN None]"
  by (simp only: append_Cons append_Nil tokenize_raw_not tokenize_raw_lparen
      tokenize_raw_snoc_rparen)

subsection \<open>No empty token\<close>

lemma split_tokens_nonempty: "t \<in> set (split_tokens p) \<Longrightarrow> t \<noteq> []"
proof (induction p rule: split_tokens.induct)
  case (1 p)
  let ?p1 = "dropWhile isspace_c p"
  show ?case
  proof (cases "?p1 = []")
    case True
    with "1.prems" show ?thesis by (subst (asm) split_tokens.simps) simp
  next
    case False
    have "\<not> isspace_c (hd ?p1)" using False hd_dropWhile by blast
    then have h: "takeWhile (\<lambda>c. \<not> isspace_c c) ?p1 \<noteq> []"
      using False by (cases ?p1) auto
    from "1.prems" False have
      "t = takeWhile (\<lambda>c. \<not> isspace_c c) ?p1
       \<or> t \<in> set (split_tokens (dropWhile (\<lambda>c. \<not> isspace_c c) ?p1))"
      by (subst (asm) split_tokens.simps) (auto simp: Let_def split: if_splits)
    then show ?thesis using h "1.IH" [OF refl False] by auto
  qed
qed

lemma stem_body_keeps_all: "stem_body body = map stem_token (split_tokens body)"
  unfolding stem_body_def
  by (rule filter_True) (auto dest: split_tokens_nonempty simp: stem_token_nonempty)

lemma gaps_after_all:
  "P (mk_token TOK_AND None) \<Longrightarrow> list_all P xs \<Longrightarrow> list_all P (gaps_after p xs)"
  by (induction xs arbitrary: p) auto

lemma insert_implicit_and_all:
  "P (mk_token TOK_AND None) \<Longrightarrow> list_all P xs \<Longrightarrow> list_all P (insert_implicit_and xs)"
  by (cases xs) (auto simp: insert_implicit_and_Cons gaps_after_all)

lemma tokenize_raw_texts: "list_all (\<lambda>t. tok_text t \<noteq> Some []) (tokenize_raw q)"
proof (induction "length q" arbitrary: q rule: less_induct)
  case less
  show ?case
  proof (cases q)
    case Nil
    then show ?thesis by simp
  next
    case (Cons ch rest)
    have IH: "list_all (\<lambda>t. tok_text t \<noteq> Some []) (tokenize_raw r)"
      if "length r \<le> length rest" for r
      using less [of r] that Cons by simp
    consider (sp) "isspace_c ch"
      | (amp) r where "ch = CHR ''&''" "rest = CHR ''&'' # r"
      | (bar) r where "ch = CHR ''|''" "rest = CHR ''|'' # r"
      | (nt) "ch = CHR ''!''" | (lp) "ch = CHR ''(''" | (rp) "ch = CHR '')''"
      | (al) "isalnum_c ch"
      | (skip) "lone_byte ch rest"
      unfolding lone_byte_def by (cases rest) auto
    then show ?thesis
    proof cases
      case sp
      then show ?thesis using IH [of rest] Cons by simp
    next
      case amp
      then show ?thesis using IH [of r] Cons
        by (simp del: tokenize_raw.simps add: tokenize_raw_and mk_token_def)
    next
      case bar
      then show ?thesis using IH [of r] Cons
        by (simp del: tokenize_raw.simps add: tokenize_raw_or mk_token_def)
    next
      case nt
      then show ?thesis using IH [of rest] Cons
        by (simp del: tokenize_raw.simps add: tokenize_raw_not mk_token_def)
    next
      case lp
      then show ?thesis using IH [of rest] Cons
        by (simp del: tokenize_raw.simps add: tokenize_raw_lparen mk_token_def)
    next
      case rp
      then show ?thesis using IH [of rest] Cons
        by (simp del: tokenize_raw.simps add: tokenize_raw_rparen mk_token_def)
    next
      case al
      have len: "length (dropWhile isalnum_c (ch # rest)) \<le> length rest"
        using al by (simp add: length_dropWhile_le)
      have "map tolower_c (takeWhile isalnum_c (ch # rest)) \<noteq> []" using al by simp
      then have "stem_term_inplace (map tolower_c (takeWhile isalnum_c (ch # rest))) \<noteq> []"
        by (rule stem_term_inplace_nonempty)
      then show ?thesis
        unfolding Cons tokenize_raw_alnum [OF al] using IH [OF len] by (simp add: mk_token_def)
    next
      case skip
      then show ?thesis
        unfolding Cons tokenize_raw_skip [OF skip] using IH [of rest] by simp
    qed
  qed
qed

lemma tokenize_query_texts: "list_all (\<lambda>t. tok_text t \<noteq> Some []) (tokenize_query q)"
  unfolding tokenize_query_spec
  by (rule insert_implicit_and_all) (simp_all add: mk_token_def tokenize_raw_texts)

text \<open>
  C10.  A non-empty token is never stemmed to the empty string, by the offline stemmer
  or by the query-time one: every rule leaves at least one byte.  So the offline stemmer
  writes every token it scans (the test that drops an empty stem never fires), and no
  token of a query carries an empty text.
\<close>

theorem stem_nonempty:
  "(token \<noteq> [] \<longrightarrow> stem_token token \<noteq> [] \<and> stem_term_inplace token \<noteq> [])
   \<and> stem_body body = map stem_token (split_tokens body)
   \<and> list_all (\<lambda>t. tok_text t \<noteq> Some []) (tokenize_query query)"
  by (simp add: stem_token_nonempty stem_term_inplace_nonempty stem_body_keeps_all
      tokenize_query_texts)

theorem stem_nonempty_witness:
  "''wings'' \<noteq> [] \<and> stem_token ''wings'' = ''wing'' \<and> stem_token ''wings'' \<noteq> []
   \<and> stem_term_inplace ''wings'' \<noteq> []"
proof -
  have "stem_token ''wings'' = ''wing''"
    by (simp add: stem_token_def ends_with_def)
  then show ?thesis using stem_nonempty [of "''wings''" "[]" "[]"] by simp
qed

section \<open>Properties of the query engine\<close>

subsection \<open>Merges of strictly ascending lists\<close>

lemma set_op_and_subset: "set (op_and a b) \<subseteq> set a \<inter> set b"
  by (induction a b rule: op_and.induct) auto

lemma set_op_and:
  "sorted_wrt (<) a \<Longrightarrow> sorted_wrt (<) b \<Longrightarrow> set (op_and a b) = set a \<inter> set b"
  by (induction a b rule: op_and.induct) (auto simp: )

lemma sorted_op_and:
  "sorted_wrt (<) a \<Longrightarrow> sorted_wrt (<) b \<Longrightarrow> sorted_wrt (<) (op_and a b)"
proof (induction a b rule: op_and.induct)
  case (3 x xs y ys)
  then show ?case using set_op_and_subset [of xs ys] by auto
qed simp_all

lemma set_op_or: "set (op_or a b) = set a \<union> set b"
  by (induction a b rule: op_or.induct) auto

lemma sorted_op_or:
  "sorted_wrt (<) a \<Longrightarrow> sorted_wrt (<) b \<Longrightarrow> sorted_wrt (<) (op_or a b)"
  by (induction a b rule: op_or.induct) (auto simp: set_op_or)

lemma set_not_merge_subset: "set (not_merge u a) \<subseteq> set u"
  by (induction u a rule: not_merge.induct) auto

lemma set_not_merge:
  "sorted_wrt (<) u \<Longrightarrow> sorted_wrt (<) a \<Longrightarrow> set (not_merge u a) = set u - set a"
proof (induction u a rule: not_merge.induct)
  case (1 a)
  then show ?case by simp
next
  case (2 u us)
  then show ?case by simp
next
  case (3 u us x xs)
  from "3.prems" have su: "sorted_wrt (<) us" and sx: "sorted_wrt (<) xs"
    and ub: "\<forall>v\<in>set us. u < v" and xb: "\<forall>v\<in>set xs. x < v"
    by simp_all
  show ?case
  proof (cases "u = x")
    case True
    then have "set (not_merge (u # us) (x # xs)) = set us - set xs"
      using "3.IH"(1) su sx by simp
    moreover have "u \<notin> set us" using ub by auto
    ultimately show ?thesis using True by auto
  next
    case False
    show ?thesis
    proof (cases "u < x")
      case True
      then have "set (not_merge (u # us) (x # xs)) = insert u (set us - set (x # xs))"
        using "3.IH"(2) False su "3.prems"(2) by simp
      moreover have "u \<notin> set (x # xs)" using True xb False by fastforce
      ultimately show ?thesis by auto
    next
      case nlt: False
      then have "set (not_merge (u # us) (x # xs)) = set (u # us) - set xs"
        using "3.IH"(3) False "3.prems"(1) sx by simp
      moreover have "x < u" using nlt False by simp
      then have "x \<notin> set (u # us)" using ub by fastforce
      ultimately show ?thesis by auto
    qed
  qed
qed

lemma sorted_not_merge:
  "sorted_wrt (<) u \<Longrightarrow> sorted_wrt (<) (not_merge u a)"
proof (induction u a rule: not_merge.induct)
  case (2 u us)
  then show ?case using set_not_merge_subset [of us "[]"] by auto
next
  case (3 u us x xs)
  then show ?case using set_not_merge_subset [of us "x # xs"] by auto
qed simp

subsection \<open>Merges against a strictly ascending universe, for any operand\<close>

lemma records_above_floor: "v \<in> set (records_above m xs) \<Longrightarrow> above m v"
proof (induction xs arbitrary: m)
  case Nil
  then show ?case by simp
next
  case (Cons x xs)
  show ?case
  proof (cases "above m x")
    case True
    with Cons.prems have "v = x \<or> v \<in> set (records_above (Some x) xs)" by simp
    then show ?thesis
    proof
      assume "v = x" then show ?thesis using True by simp
    next
      assume "v \<in> set (records_above (Some x) xs)"
      from Cons.IH [OF this] have "x < v" by (simp add: above_def)
      then show ?thesis using True by (auto simp: above_def split: option.splits)
    qed
  next
    case False
    with Cons.prems Cons.IH show ?thesis by simp
  qed
qed

lemma records_above_raise:
  "(\<forall>w. m = Some w \<longrightarrow> w \<le> x) \<Longrightarrow> x < v \<Longrightarrow>
   v \<in> set (records_above m xs) \<longleftrightarrow> v \<in> set (records_above (Some x) xs)"
proof (induction xs arbitrary: m x)
  case Nil
  then show ?case by simp
next
  case (Cons y ys)
  show ?case
  proof (cases "x < y")
    case True
    then have "above m y" using Cons.prems(1) by (auto simp: above_def split: option.splits)
    then show ?thesis using True by (simp add: above_def)
  next
    case False
    then have yx: "y \<le> x" by simp
    then have ny: "v \<noteq> y" using Cons.prems(2) by auto
    have r: "records_above (Some x) (y # ys) = records_above (Some x) ys"
      using False by (simp add: above_def)
    show ?thesis
    proof (cases "above m y")
      case True
      have "v \<in> set (records_above (Some y) ys) \<longleftrightarrow> v \<in> set (records_above (Some x) ys)"
        by (rule Cons.IH) (use yx Cons.prems(2) in auto)
      then show ?thesis using True ny r by simp
    next
      case nab: False
      have "v \<in> set (records_above m ys) \<longleftrightarrow> v \<in> set (records_above (Some x) ys)"
        by (rule Cons.IH [OF Cons.prems])
      then show ?thesis using nab r by simp
    qed
  qed
qed

lemma not_merge_records:
  "sorted_wrt (<) u \<Longrightarrow> \<forall>v\<in>set u. above m v \<Longrightarrow>
   not_merge u a = filter (\<lambda>v. v \<notin> set (records_above m a)) u"
proof (induction u a arbitrary: m rule: not_merge.induct)
  case (1 a)
  then show ?case by simp
next
  case (2 u us)
  have "not_merge us [] = filter (\<lambda>v. v \<notin> set (records_above m [])) us"
    by (rule "2.IH") (use "2.prems" in auto)
  then show ?case by simp
next
  case (3 u us x xs)
  from "3.prems"(1) have su: "sorted_wrt (<) us" and ub: "\<forall>v\<in>set us. u < v" by simp_all
  have am: "above m u" and ams: "\<forall>v\<in>set us. above m v" using "3.prems"(2) by simp_all
  have fl: "\<forall>w. m = Some w \<longrightarrow> w \<le> x" if "above m x"
    using that by (auto simp: above_def)
  show ?case
  proof (cases "u = x")
    case True
    have ax: "above m x" using am True by simp
    have "not_merge us xs = filter (\<lambda>v. v \<notin> set (records_above (Some x) xs)) us"
      by (rule "3.IH"(1) [OF True su]) (use ub True in \<open>simp add: above_def\<close>)
    moreover have "filter (\<lambda>v. v \<notin> set (records_above m (x # xs))) us
        = filter (\<lambda>v. v \<notin> set (records_above (Some x) xs)) us"
      using ax ub True by (intro filter_cong) auto
    ultimately show ?thesis using True ax by simp
  next
    case False
    show ?thesis
    proof (cases "u < x")
      case True
      then have ax: "above m x" using am by (auto simp: above_def split: option.splits)
      have "u \<notin> set (records_above m (x # xs))"
      proof
        assume "u \<in> set (records_above m (x # xs))"
        then have "u = x \<or> u \<in> set (records_above (Some x) xs)" using ax by simp
        then show False using False True records_above_floor [of u "Some x" xs]
          by (auto simp: above_def)
      qed
      moreover have "not_merge us (x # xs) = filter (\<lambda>v. v \<notin> set (records_above m (x # xs))) us"
        by (rule "3.IH"(2) [OF False True su ams])
      ultimately show ?thesis using False True by simp
    next
      case nlt: False
      then have xu: "x < u" using False by simp
      have ih: "not_merge (u # us) xs = filter (\<lambda>v. v \<notin> set (records_above m xs)) (u # us)"
        by (rule "3.IH"(3) [OF False nlt "3.prems"])
      have "filter (\<lambda>v. v \<notin> set (records_above m (x # xs))) (u # us)
          = filter (\<lambda>v. v \<notin> set (records_above m xs)) (u # us)"
      proof (cases "above m x")
        case nab: False
        then show ?thesis by simp
      next
        case True
        have "v \<in> set (records_above m (x # xs)) \<longleftrightarrow> v \<in> set (records_above m xs)"
          if "v \<in> set (u # us)" for v
        proof -
          have xv: "x < v" using that xu ub by auto
          have "v \<in> set (records_above m xs) \<longleftrightarrow> v \<in> set (records_above (Some x) xs)"
            by (rule records_above_raise [OF fl [OF True] xv])
          then show ?thesis using True xv by auto
        qed
        then show ?thesis by (intro filter_cong) auto
      qed
      then show ?thesis using ih False nlt by simp
    qed
  qed
qed

lemma records_op_and:
  "set (records_above m (op_and a b)) = set (records_above m a) \<inter> set (records_above m b)"
proof (induction a b arbitrary: m rule: op_and.induct)
  case (1 b)
  then show ?case by simp
next
  case (2 x xs)
  then show ?case by simp
next
  case (3 x xs y ys)
  have fl: "\<forall>w. m = Some w \<longrightarrow> w \<le> z" if "above m z" for z
    using that by (auto simp: above_def)
  have skip: "set (records_above m (p # ps)) \<inter> set (records_above m (q # qs))
      = set (records_above m ps) \<inter> set (records_above m (q # qs))"
    if pq: "p < q" for p ps q qs
  proof (cases "above m p")
    case False
    then show ?thesis by simp
  next
    case True
    then have aq: "above m q" using pq by (auto simp: above_def split: option.splits)
    have "v \<in> set (records_above m (p # ps)) \<longleftrightarrow> v \<in> set (records_above m ps)"
      if "v \<in> set (records_above m (q # qs))" for v
    proof -
      from that aq have "v = q \<or> v \<in> set (records_above (Some q) qs)" by simp
      then have pv: "p < v" using pq records_above_floor [of v "Some q" qs]
        by (auto simp: above_def)
      have "v \<in> set (records_above m ps) \<longleftrightarrow> v \<in> set (records_above (Some p) ps)"
        by (rule records_above_raise [OF fl [OF True] pv])
      then show ?thesis using True pv by auto
    qed
    then show ?thesis by blast
  qed
  show ?case
  proof (cases "x = y")
    case True
    then show ?thesis using "3.IH"(1) [OF True] by auto
  next
    case False
    show ?thesis
    proof (cases "x < y")
      case True
      then show ?thesis using "3.IH"(2) [OF False True, of m] skip [OF True, of xs ys] False
        by simp
    next
      case nlt: False
      then have yx: "y < x" using False by simp
      show ?thesis using "3.IH"(3) [OF False nlt, of m] skip [OF yx, of ys xs] False nlt
        by (simp add: Int_commute)
    qed
  qed
qed

lemma sorted_filter_strict: "sorted_wrt (<) xs \<Longrightarrow> sorted_wrt (<) (filter P (xs :: u32 list))"
  by (induction xs) auto

lemma de_morgan_any_lists:
  assumes "sorted_wrt (<) u"
  shows "not_merge u (op_and a b) = op_or (not_merge u a) (not_merge u b)"
proof -
  have n: "not_merge u l = filter (\<lambda>v. v \<notin> set (records_above None l)) u" for l
    by (rule not_merge_records [OF assms]) (simp add: above_def)
  show ?thesis
  proof (rule strict_sorted_equal)
    show "sorted_wrt (<) (op_or (not_merge u a) (not_merge u b))"
      unfolding n by (intro sorted_op_or sorted_filter_strict assms)
    show "sorted_wrt (<) (not_merge u (op_and a b))"
      unfolding n by (rule sorted_filter_strict [OF assms])
    show "set (not_merge u (op_and a b)) = set (op_or (not_merge u a) (not_merge u b))"
      unfolding set_op_or unfolding n records_op_and by auto
  qed
qed

subsection \<open>Implicit conjunction around a parenthesised query\<close>

lemma gaps_after_snoc_rparen:
  "tok_type rp = TOK_RPAREN \<Longrightarrow> gaps_after p (xs @ [rp]) = gaps_after p xs @ [rp]"
  by (induction xs arbitrary: p) (auto simp: and_needed_between_def)

lemma insert_implicit_and_wrap:
  "insert_implicit_and
     (mk_token TOK_NOT None # mk_token TOK_LPAREN None # raw @ [mk_token TOK_RPAREN None])
   = mk_token TOK_NOT None # mk_token TOK_LPAREN None # insert_implicit_and raw
       @ [mk_token TOK_RPAREN None]"
proof (cases raw)
  case Nil
  then show ?thesis by (simp add: and_needed_between_def mk_token_def)
next
  case (Cons x xs)
  have "gaps_after x (xs @ [mk_token TOK_RPAREN None]) = gaps_after x xs @ [mk_token TOK_RPAREN None]"
    by (rule gaps_after_snoc_rparen) (simp add: mk_token_def)
  then show ?thesis using Cons
    by (simp add: and_needed_between_def mk_token_def insert_implicit_and_Cons)
qed

lemma tokenize_query_wrap:
  "tokenize_query (''!('' @ q @ '')'') =
     mk_token TOK_NOT None # mk_token TOK_LPAREN None # tokenize_query q
       @ [mk_token TOK_RPAREN None]"
  by (simp only: tokenize_query_spec tokenize_raw_wrap insert_implicit_and_wrap)

subsection \<open>Shunting-yard: a parenthesis on the stack is a floor\<close>

lemma pop_operators_frame:
  "tok_type b = TOK_LPAREN \<Longrightarrow>
   pop_operators t (ops @ b # base) out =
     (case pop_operators t ops out of (ops', out') \<Rightarrow> (ops' @ b # base, out'))"
  by (induction ops arbitrary: out) (auto simp: is_operator_def Let_def)

lemma pop_to_lparen_frame:
  "pop_to_lparen ops out = Some (ops', out') \<Longrightarrow>
   pop_to_lparen (ops @ base) out = Some (ops' @ base, out')"
  by (induction ops arbitrary: out) (auto split: if_splits)

lemma to_rpn_loop_frame:
  "to_rpn_loop ts ops out = Some (ops', out') \<Longrightarrow> tok_type b = TOK_LPAREN \<Longrightarrow>
   to_rpn_loop ts (ops @ b # base) out = Some (ops' @ b # base, out')"
proof (induction ts arbitrary: ops out)
  case Nil
  then show ?case by simp
next
  case (Cons t ts)
  show ?case
  proof (cases "tok_type t")
    case TOK_TERM
    then show ?thesis using Cons by simp
  next
    case TOK_LPAREN
    then show ?thesis using Cons.IH [of "t # ops" out] Cons.prems
      by (simp add: is_operator_def)
  next
    case TOK_RPAREN
    with Cons.prems obtain o1 out1 where
      p: "pop_to_lparen ops out = Some (o1, out1)" and r: "to_rpn_loop ts o1 out1 = Some (ops', out')"
      by (auto simp: is_operator_def split: option.splits)
    from pop_to_lparen_frame [OF p, of "b # base"] Cons.IH [OF r Cons.prems(2)] TOK_RPAREN
    show ?thesis by (simp add: is_operator_def)
  next
    case op: TOK_AND
    obtain o1 out1 where p: "pop_operators t ops out = (o1, out1)" by force
    with Cons.prems op have r: "to_rpn_loop ts (t # o1) out1 = Some (ops', out')"
      by (simp add: is_operator_def)
    from Cons.IH [OF r Cons.prems(2)] p op Cons.prems(2) show ?thesis
      by (simp add: is_operator_def pop_operators_frame)
  next
    case op: TOK_OR
    obtain o1 out1 where p: "pop_operators t ops out = (o1, out1)" by force
    with Cons.prems op have r: "to_rpn_loop ts (t # o1) out1 = Some (ops', out')"
      by (simp add: is_operator_def)
    from Cons.IH [OF r Cons.prems(2)] p op Cons.prems(2) show ?thesis
      by (simp add: is_operator_def pop_operators_frame)
  next
    case op: TOK_NOT
    obtain o1 out1 where p: "pop_operators t ops out = (o1, out1)" by force
    with Cons.prems op have r: "to_rpn_loop ts (t # o1) out1 = Some (ops', out')"
      by (simp add: is_operator_def)
    from Cons.IH [OF r Cons.prems(2)] p op Cons.prems(2) show ?thesis
      by (simp add: is_operator_def pop_operators_frame)
  qed
qed

lemma to_rpn_loop_append:
  "to_rpn_loop (xs @ ys) ops out =
     (case to_rpn_loop xs ops out of
        None \<Rightarrow> None
      | Some (ops', out') \<Rightarrow> to_rpn_loop ys ops' out')"
  by (induction xs arbitrary: ops out) (auto split: option.splits prod.splits)

lemma drain_then_close:
  "drain_ops ops out = Some r \<Longrightarrow> tok_type b = TOK_LPAREN \<Longrightarrow>
   pop_to_lparen (ops @ b # base) out = Some (base, r)"
  by (induction ops arbitrary: out) (auto split: if_splits)

lemma to_rpn_wrap:
  assumes "to_rpn toks = Some rpn"
  shows "to_rpn (mk_token TOK_NOT None # mk_token TOK_LPAREN None # toks
            @ [mk_token TOK_RPAREN None]) = Some (rpn @ [mk_token TOK_NOT None])"
proof -
  let ?n = "mk_token TOK_NOT None" and ?l = "mk_token TOK_LPAREN None"
    and ?r = "mk_token TOK_RPAREN None"
  from assms obtain ops out where
    l: "to_rpn_loop toks [] [] = Some (ops, out)" and d: "drain_ops ops out = Some rpn"
    by (auto simp: to_rpn_def split: option.splits)
  have lp: "tok_type ?l = TOK_LPAREN" by (simp add: mk_token_def)
  have f: "to_rpn_loop toks ([] @ ?l # [?n]) [] = Some (ops @ ?l # [?n], out)"
    by (rule to_rpn_loop_frame [OF l lp])
  have c: "pop_to_lparen (ops @ ?l # [?n]) out = Some ([?n], rpn)"
    by (rule drain_then_close [OF d lp])
  have "to_rpn_loop (?n # ?l # toks @ [?r]) [] [] = to_rpn_loop (toks @ [?r]) [?l, ?n] []"
    by (simp add: mk_token_def is_operator_def)
  also have "\<dots> = to_rpn_loop [?r] (ops @ ?l # [?n]) out"
    using f by (simp add: to_rpn_loop_append)
  also have "\<dots> = Some ([?n], rpn)"
    using c by (simp add: mk_token_def is_operator_def)
  finally show ?thesis
    by (simp add: to_rpn_def mk_token_def)
qed

subsection \<open>Lexicon lookup\<close>

lemma lexicon_find_loop_sound:
  "lexicon_find_loop lx t lo hi = Some (off, cnt) \<Longrightarrow> 0 \<le> lo \<Longrightarrow> hi < int (length lx) \<Longrightarrow>
   \<exists>e \<in> set lx. lex_term e = t \<and> postings_offset e = off \<and> postings_count e = cnt"
proof (induction lx t lo hi rule: lexicon_find_loop.induct)
  case (1 lx t lo hi)
  from "1.prems"(1) have le: "lo \<le> hi"
    by (subst (asm) lexicon_find_loop.simps) (simp split: if_splits)
  define mid where "mid = (lo + hi) div 2"
  have mid: "lo \<le> mid" "mid \<le> hi" using le by (simp_all add: mid_def)
  then have inr: "nat mid < length lx" using "1.prems" by simp
  show ?case
  proof (cases "strcmp t (lex_term (lx ! nat mid)) = 0")
    case True
    then have "t = lex_term (lx ! nat mid)" by (simp add: strcmp_def split: if_splits)
    moreover from "1.prems"(1) True le
    have "off = postings_offset (lx ! nat mid) \<and> cnt = postings_count (lx ! nat mid)"
      by (subst (asm) lexicon_find_loop.simps) (simp add: mid_def Let_def)
    ultimately show ?thesis using inr nth_mem by blast
  next
    case False
    show ?thesis
    proof (cases "strcmp t (lex_term (lx ! nat mid)) < 0")
      case True
      from "1.prems"(1) le False True
      have "lexicon_find_loop lx t lo (mid - 1) = Some (off, cnt)"
        by (subst (asm) lexicon_find_loop.simps) (simp add: mid_def Let_def)
      then show ?thesis
        using "1.IH"(1) [OF le mid_def refl _ True] False "1.prems" mid by simp
    next
      case nlt: False
      from "1.prems"(1) le False nlt
      have "lexicon_find_loop lx t (mid + 1) hi = Some (off, cnt)"
        by (subst (asm) lexicon_find_loop.simps) (simp add: mid_def Let_def)
      then show ?thesis
        using "1.IH"(2) [OF le mid_def refl _ nlt] False "1.prems" mid by simp
    qed
  qed
qed

lemma lexicon_find_sound:
  "lexicon_find idx t = Some (off, cnt) \<Longrightarrow>
   \<exists>e \<in> set (lexicon idx). lex_term e = t \<and> postings_offset e = off \<and> postings_count e = cnt"
  unfolding lexicon_find_def by (rule lexicon_find_loop_sound, assumption) simp_all

lemma lexicon_find_absent:
  "t \<notin> lex_term ` set (lexicon idx) \<Longrightarrow> lexicon_find idx t = None"
proof (rule ccontr)
  assume a: "t \<notin> lex_term ` set (lexicon idx)" and "lexicon_find idx t \<noteq> None"
  then obtain off cnt where "lexicon_find idx t = Some (off, cnt)" by auto
  from lexicon_find_sound [OF this] a show False by auto
qed

subsection \<open>Evaluator\<close>

lemma index_wf_region:
  "index_wf idx \<Longrightarrow> e \<in> set (lexicon idx) \<Longrightarrow>
   good_list idx (take (postings_count e) (drop (postings_offset e div 4) (postings_data idx)))"
  by (auto simp: index_wf_def index_sorted_def good_list_def list_all_iff posting_region_def)

lemma eval_rpn_loop_good:
  "index_wf idx \<Longrightarrow> \<forall>l \<in> set stack. good_list idx l \<Longrightarrow>
   eval_rpn_loop idx ts stack = Some stack' \<Longrightarrow> \<forall>l \<in> set stack'. good_list idx l"
proof (induction ts arbitrary: stack)
  case Nil
  then show ?case by simp
next
  case (Cons t ts)
  have u: "sorted_wrt (<) (universe_ids idx)" using Cons.prems(1) by (simp add: index_wf_def index_sorted_def)
  show ?case
  proof (cases "tok_type t")
    case TOK_TERM
    with Cons.prems(3) obtain tx where tx: "tok_text t = Some tx"
      by (auto split: option.splits)
    show ?thesis
    proof (cases "lexicon_find idx tx")
      case None
      with Cons.prems TOK_TERM tx have "eval_rpn_loop idx ts ([] # stack) = Some stack'" by simp
      moreover have "\<forall>l \<in> set ([] # stack). good_list idx l"
        using Cons.prems(2) by (simp add: good_list_def)
      ultimately show ?thesis using Cons.IH Cons.prems(1) by blast
    next
      case (Some p)
      obtain off cnt where p: "p = (off, cnt)" by force
      from lexicon_find_sound [OF Some [unfolded p]] obtain e where
        e: "e \<in> set (lexicon idx)" "postings_offset e = off" "postings_count e = cnt" by blast
      let ?pl = "take cnt (drop (off div 4) (postings_data idx))"
      from Cons.prems(3) TOK_TERM tx Some p
      have "eval_rpn_loop idx ts (?pl # stack) = Some stack'"
        by (simp add: Let_def split: if_splits)
      moreover have "good_list idx ?pl" using index_wf_region [OF Cons.prems(1) e(1)] e by simp
      then have "\<forall>l \<in> set (?pl # stack). good_list idx l" using Cons.prems(2) by simp
      ultimately show ?thesis using Cons.IH Cons.prems(1) by blast
    qed
  next
    case TOK_NOT
    with Cons.prems(3) obtain a st where st: "stack = a # st"
      by (cases stack) auto
    with Cons.prems(3) TOK_NOT have "eval_rpn_loop idx ts (op_not idx a # st) = Some stack'" by simp
    moreover have "good_list idx (op_not idx a)"
      using u set_not_merge_subset by (simp add: good_list_def op_not_def sorted_not_merge)
    then have "\<forall>l \<in> set (op_not idx a # st). good_list idx l" using Cons.prems(2) st by simp
    ultimately show ?thesis using Cons.IH Cons.prems(1) by blast
  next
    case TOK_AND
    with Cons.prems(3) obtain b a st where st: "stack = b # a # st"
      by (cases stack; cases "tl stack") auto
    with Cons.prems(3) TOK_AND have "eval_rpn_loop idx ts (op_and a b # st) = Some stack'" by simp
    moreover have "good_list idx (op_and a b)"
      using Cons.prems(2) st set_op_and_subset [of a b]
      by (auto simp: good_list_def sorted_op_and)
    then have "\<forall>l \<in> set (op_and a b # st). good_list idx l" using Cons.prems(2) st by simp
    ultimately show ?thesis using Cons.IH Cons.prems(1) by blast
  next
    case TOK_OR
    with Cons.prems(3) obtain b a st where st: "stack = b # a # st"
      by (cases stack; cases "tl stack") auto
    with Cons.prems(3) TOK_OR have "eval_rpn_loop idx ts (op_or a b # st) = Some stack'" by simp
    moreover have "good_list idx (op_or a b)"
      using Cons.prems(2) st by (auto simp: good_list_def sorted_op_or set_op_or)
    then have "\<forall>l \<in> set (op_or a b # st). good_list idx l" using Cons.prems(2) st by simp
    ultimately show ?thesis using Cons.IH Cons.prems(1) by blast
  next
    case TOK_LPAREN
    then show ?thesis using Cons by simp
  next
    case TOK_RPAREN
    then show ?thesis using Cons by simp
  qed
qed

lemma eval_rpn_good:
  "index_wf idx \<Longrightarrow> eval_rpn idx rpn = Some r \<Longrightarrow> good_list idx r"
proof -
  assume wf: "index_wf idx" and e: "eval_rpn idx rpn = Some r"
  then have "eval_rpn_loop idx rpn [] = Some [r]"
    by (auto simp: eval_rpn_def split: option.splits list.splits)
  from eval_rpn_loop_good [OF wf _ this] show ?thesis by simp
qed

lemma eval_rpn_loop_append:
  "eval_rpn_loop idx (xs @ ys) stack =
     (case eval_rpn_loop idx xs stack of
        None \<Rightarrow> None
      | Some stack' \<Rightarrow> eval_rpn_loop idx ys stack')"
  by (induction xs arbitrary: stack)
    (simp_all add: Let_def split: option.split list.split prod.split)

lemma eval_rpn_snoc_not:
  "eval_rpn idx rpn = Some r \<Longrightarrow>
   eval_rpn idx (rpn @ [mk_token TOK_NOT None]) = Some (op_not idx r)"
proof -
  assume "eval_rpn idx rpn = Some r"
  then have "eval_rpn_loop idx rpn [] = Some [r]"
    by (auto simp: eval_rpn_def split: option.splits list.splits)
  then show ?thesis
    by (simp add: eval_rpn_def eval_rpn_loop_append mk_token_def)
qed

lemma evaluate_wrap:
  assumes "tokenize_query q \<noteq> []" and "evaluate idx q = Inr r"
  shows "evaluate idx (''!('' @ q @ '')'') = Inr (op_not idx r)"
proof -
  from assms obtain rpn where rpn: "to_rpn (tokenize_query q) = Some rpn"
    and ev: "eval_rpn idx rpn = Some r"
    by (auto simp: evaluate_def Let_def split: option.splits)
  show ?thesis
    unfolding evaluate_def tokenize_query_wrap
    by (simp add: to_rpn_wrap [OF rpn] eval_rpn_snoc_not [OF ev])
qed

lemma evaluate_good:
  assumes "index_wf idx" and "evaluate idx q = Inr r"
  shows "good_list idx r"
proof (cases "tokenize_query q = []")
  case True
  then show ?thesis using assms by (simp add: evaluate_def good_list_def)
next
  case False
  with assms(2) obtain rpn where "eval_rpn idx rpn = Some r"
    by (auto simp: evaluate_def Let_def split: option.splits)
  then show ?thesis using eval_rpn_good assms(1) by blast
qed

text \<open>
  C1.  For every query \<open>q\<close> that has at least one token and evaluates to a result list,
  on a loaded index whose universe is strictly ascending and whose posting regions are
  strictly ascending and hold only ids of the universe, the query \<open>!(q)\<close> evaluates
  too; the two result lists are disjoint and together hold exactly the ids of the
  universe.  The builder writes such an index when the document lines arrive in ascending
  \<open>doc_id\<close> order and every \<open>doc_id\<close> of a line is non-zero and is the \<open>doc_id\<close>
  of a record of raw\_text.tsv (lemma \<open>built_index_wf\<close> below).
\<close>

theorem not_is_complement:
  assumes "index_wf idx" and "tokenize_query q \<noteq> []" and "evaluate idx q = Inr r"
  shows "\<exists>r'. evaluate idx (''!('' @ q @ '')'') = Inr r'
           \<and> set r' \<union> set r = set (universe_ids idx) \<and> set r' \<inter> set r = {}"
proof -
  have g: "good_list idx r" by (rule evaluate_good [OF assms(1,3)])
  have u: "sorted_wrt (<) (universe_ids idx)" using assms(1) by (simp add: index_wf_def index_sorted_def)
  have "set (op_not idx r) = set (universe_ids idx) - set r"
    using g u by (simp add: op_not_def good_list_def set_not_merge)
  then have "set (op_not idx r) \<union> set r = set (universe_ids idx) \<and> set (op_not idx r) \<inter> set r = {}"
    using g by (auto simp: good_list_def)
  then show ?thesis using evaluate_wrap [OF assms(2,3)] by blast
qed

subsection \<open>De Morgan\<close>

lemma eval_term_step:
  "eval_rpn_loop idx (mk_token TOK_TERM (Some tx) # ts) stack =
     (case load_term idx tx of
        None \<Rightarrow> None
      | Some pl \<Rightarrow> eval_rpn_loop idx ts (pl # stack))"
  by (simp add: mk_token_def load_term_def Let_def split: option.splits)

lemma tokenize_raw_term:
  assumes "a \<noteq> []" and "list_all isalnum_c a" and "rest = [] \<or> \<not> isalnum_c (hd rest)"
  shows "tokenize_raw (a @ rest) =
     mk_token TOK_TERM (Some (stem_term_inplace (map tolower_c a))) # tokenize_raw rest"
proof -
  obtain ch a' where a: "a = ch # a'" using assms(1) by (cases a) auto
  have al: "isalnum_c ch" using assms(2) a by simp
  have all: "\<And>x. x \<in> set a \<Longrightarrow> isalnum_c x" using assms(2) by (simp add: list_all_iff)
  have r: "takeWhile isalnum_c rest = []" "dropWhile isalnum_c rest = rest"
    using assms(3) by (cases rest; auto)+
  have tw: "takeWhile isalnum_c (a @ rest) = a"
    using takeWhile_append2 [of a isalnum_c rest] all r by simp
  have dw: "dropWhile isalnum_c (a @ rest) = rest"
    using dropWhile_append2 [of a isalnum_c rest] all r by simp
  have "tokenize_raw (ch # (a' @ rest)) =
      mk_token TOK_TERM (Some (stem_term_inplace (map tolower_c (takeWhile isalnum_c (ch # (a' @ rest))))))
        # tokenize_raw (dropWhile isalnum_c (ch # (a' @ rest)))"
    by (rule tokenize_raw_alnum [OF al])
  then show ?thesis using tw dw a by simp
qed

lemma tokens_not_and:
  assumes "a \<noteq> []" "list_all isalnum_c a" "b \<noteq> []" "list_all isalnum_c b"
  shows "tokenize_query (''!('' @ a @ '' && '' @ b @ '')'') =
     [mk_token TOK_NOT None, mk_token TOK_LPAREN None,
      mk_token TOK_TERM (Some (stem_term_inplace (map tolower_c a))), mk_token TOK_AND None,
      mk_token TOK_TERM (Some (stem_term_inplace (map tolower_c b))), mk_token TOK_RPAREN None]"
proof -
  have sp: "isspace_c CHR '' ''" by (simp add: isspace_c_def)
  have n1: "\<not> isalnum_c CHR '' ''" "\<not> isalnum_c CHR '')''" by (simp_all add: isalnum_c_def)
  have b: "tokenize_raw (b @ '')'') =
      [mk_token TOK_TERM (Some (stem_term_inplace (map tolower_c b))), mk_token TOK_RPAREN None]"
    using tokenize_raw_term [OF assms(3,4), of "'')''"] n1
    by (simp del: tokenize_raw.simps(2) add: tokenize_raw_rparen)
  have "tokenize_raw ('' && '' @ b @ '')'') = mk_token TOK_AND None # tokenize_raw (b @ '')'')"
    using sp by (simp del: tokenize_raw.simps(2) add: tokenize_raw_space tokenize_raw_and)
  moreover have "tokenize_raw (a @ '' && '' @ b @ '')'') =
      mk_token TOK_TERM (Some (stem_term_inplace (map tolower_c a)))
        # tokenize_raw ('' && '' @ b @ '')'')"
    using tokenize_raw_term [OF assms(1,2), of "'' && '' @ b @ '')''"] n1 by simp
  ultimately have "tokenize_raw (''!('' @ a @ '' && '' @ b @ '')'') =
     [mk_token TOK_NOT None, mk_token TOK_LPAREN None,
      mk_token TOK_TERM (Some (stem_term_inplace (map tolower_c a))), mk_token TOK_AND None,
      mk_token TOK_TERM (Some (stem_term_inplace (map tolower_c b))), mk_token TOK_RPAREN None]"
    using b by (simp del: tokenize_raw.simps(2) add: tokenize_raw_not tokenize_raw_lparen)
  then show ?thesis
    by (simp add: tokenize_query_spec and_needed_between_def mk_token_def)
qed

lemma tokens_not_or_not:
  assumes "a \<noteq> []" "list_all isalnum_c a" "b \<noteq> []" "list_all isalnum_c b"
  shows "tokenize_query (''!'' @ a @ '' || !'' @ b) =
     [mk_token TOK_NOT None,
      mk_token TOK_TERM (Some (stem_term_inplace (map tolower_c a))), mk_token TOK_OR None,
      mk_token TOK_NOT None,
      mk_token TOK_TERM (Some (stem_term_inplace (map tolower_c b)))]"
proof -
  have sp: "isspace_c CHR '' ''" by (simp add: isspace_c_def)
  have n1: "\<not> isalnum_c CHR '' ''" by (simp add: isalnum_c_def)
  have b: "tokenize_raw b = [mk_token TOK_TERM (Some (stem_term_inplace (map tolower_c b)))]"
    using tokenize_raw_term [OF assms(3,4), of "[]"] by simp
  have "tokenize_raw ('' || !'' @ b) = mk_token TOK_OR None # mk_token TOK_NOT None # tokenize_raw b"
    using sp
    by (simp del: tokenize_raw.simps(2) add: tokenize_raw_space tokenize_raw_or tokenize_raw_not)
  moreover have "tokenize_raw (a @ '' || !'' @ b) =
      mk_token TOK_TERM (Some (stem_term_inplace (map tolower_c a))) # tokenize_raw ('' || !'' @ b)"
    using tokenize_raw_term [OF assms(1,2), of "'' || !'' @ b"] n1 by simp
  ultimately have "tokenize_raw (''!'' @ a @ '' || !'' @ b) =
     [mk_token TOK_NOT None,
      mk_token TOK_TERM (Some (stem_term_inplace (map tolower_c a))), mk_token TOK_OR None,
      mk_token TOK_NOT None,
      mk_token TOK_TERM (Some (stem_term_inplace (map tolower_c b)))]"
    using b by (simp del: tokenize_raw.simps(2) add: tokenize_raw_not)
  then show ?thesis
    by (simp add: tokenize_query_spec and_needed_between_def mk_token_def)
qed

lemma rpn_not_and:
  "to_rpn [mk_token TOK_NOT None, mk_token TOK_LPAREN None, mk_token TOK_TERM (Some x),
           mk_token TOK_AND None, mk_token TOK_TERM (Some y), mk_token TOK_RPAREN None]
   = Some [mk_token TOK_TERM (Some x), mk_token TOK_TERM (Some y), mk_token TOK_AND None,
           mk_token TOK_NOT None]"
  by (simp add: to_rpn_def mk_token_def is_operator_def precedence_def is_right_assoc_def)

lemma rpn_not_or_not:
  "to_rpn [mk_token TOK_NOT None, mk_token TOK_TERM (Some x), mk_token TOK_OR None,
           mk_token TOK_NOT None, mk_token TOK_TERM (Some y)]
   = Some [mk_token TOK_TERM (Some x), mk_token TOK_NOT None, mk_token TOK_TERM (Some y),
           mk_token TOK_NOT None, mk_token TOK_OR None]"
  by (simp add: to_rpn_def mk_token_def is_operator_def precedence_def is_right_assoc_def)

lemma eval_not_step:
  "eval_rpn_loop idx (mk_token TOK_NOT None # ts) (p # st)
     = eval_rpn_loop idx ts (op_not idx p # st)"
  by (simp add: mk_token_def)

lemma eval_and_step:
  "eval_rpn_loop idx (mk_token TOK_AND None # ts) (q # p # st)
     = eval_rpn_loop idx ts (op_and p q # st)"
  by (simp add: mk_token_def)

lemma eval_or_step:
  "eval_rpn_loop idx (mk_token TOK_OR None # ts) (q # p # st)
     = eval_rpn_loop idx ts (op_or p q # st)"
  by (simp add: mk_token_def)

lemmas eval_steps = eval_term_step eval_not_step eval_and_step eval_or_step

lemma eval_not_and:
  "eval_rpn idx [mk_token TOK_TERM (Some x), mk_token TOK_TERM (Some y), mk_token TOK_AND None,
                 mk_token TOK_NOT None]
   = (case load_term idx x of
        None \<Rightarrow> None
      | Some pa \<Rightarrow>
          (case load_term idx y of
             None \<Rightarrow> None
           | Some pb \<Rightarrow> Some (op_not idx (op_and pa pb))))"
proof (cases "load_term idx x")
  case None
  then show ?thesis by (simp del: eval_rpn_loop.simps(2) add: eval_rpn_def eval_steps)
next
  case pa: (Some pa)
  show ?thesis
  proof (cases "load_term idx y")
    case None
    then show ?thesis using pa by (simp del: eval_rpn_loop.simps(2) add: eval_rpn_def eval_steps)
  next
    case (Some pb)
    then show ?thesis using pa by (simp del: eval_rpn_loop.simps(2) add: eval_rpn_def eval_steps)
  qed
qed

lemma eval_not_or_not:
  "eval_rpn idx [mk_token TOK_TERM (Some x), mk_token TOK_NOT None, mk_token TOK_TERM (Some y),
                 mk_token TOK_NOT None, mk_token TOK_OR None]
   = (case load_term idx x of
        None \<Rightarrow> None
      | Some pa \<Rightarrow>
          (case load_term idx y of
             None \<Rightarrow> None
           | Some pb \<Rightarrow> Some (op_or (op_not idx pa) (op_not idx pb))))"
proof (cases "load_term idx x")
  case None
  then show ?thesis by (simp del: eval_rpn_loop.simps(2) add: eval_rpn_def eval_steps)
next
  case pa: (Some pa)
  show ?thesis
  proof (cases "load_term idx y")
    case None
    then show ?thesis using pa by (simp del: eval_rpn_loop.simps(2) add: eval_rpn_def eval_steps)
  next
    case (Some pb)
    then show ?thesis using pa by (simp del: eval_rpn_loop.simps(2) add: eval_rpn_def eval_steps)
  qed
qed

text \<open>
  C2.  For any two terms \<open>a\<close> and \<open>b\<close> (non-empty runs of alphanumeric bytes) and
  any loaded index whose universe is strictly ascending, as forward.bin lists it, the
  queries \<open>!(a && b)\<close> and \<open>!a || !b\<close> evaluate to the same result: the same posting
  list, or the same evaluation error when a lexicon entry points outside the postings.
  Nothing is asked of the posting lists themselves.
\<close>

theorem de_morgan:
  assumes "sorted_wrt (<) (universe_ids idx)"
    and "a \<noteq> []" and "list_all isalnum_c a" and "b \<noteq> []" and "list_all isalnum_c b"
  shows "evaluate idx (''!('' @ a @ '' && '' @ b @ '')'') = evaluate idx (''!'' @ a @ '' || !'' @ b)"
proof -
  let ?x = "stem_term_inplace (map tolower_c a)" and ?y = "stem_term_inplace (map tolower_c b)"
  have dm: "op_not idx (op_and pa pb) = op_or (op_not idx pa) (op_not idx pb)" for pa pb
    unfolding op_not_def by (rule de_morgan_any_lists [OF assms(1)])
  have l: "evaluate idx (''!('' @ a @ '' && '' @ b @ '')'') =
      (case load_term idx ?x of None \<Rightarrow> Inl EvalError
       | Some pa \<Rightarrow> (case load_term idx ?y of None \<Rightarrow> Inl EvalError
                     | Some pb \<Rightarrow> Inr (op_not idx (op_and pa pb))))"
    unfolding evaluate_def tokens_not_and [OF assms(2-5)]
    by (simp add: rpn_not_and eval_not_and split: option.splits)
  have r: "evaluate idx (''!'' @ a @ '' || !'' @ b) =
      (case load_term idx ?x of None \<Rightarrow> Inl EvalError
       | Some pa \<Rightarrow> (case load_term idx ?y of None \<Rightarrow> Inl EvalError
                     | Some pb \<Rightarrow> Inr (op_or (op_not idx pa) (op_not idx pb))))"
    unfolding evaluate_def tokens_not_or_not [OF assms(2-5)]
    by (simp add: rpn_not_or_not eval_not_or_not split: option.splits)
  show ?thesis unfolding l r using dm by (simp split: option.splits)
qed

subsection \<open>Queries whose terms are absent\<close>

lemma pop_operators_subset:
  "pop_operators t ops out = (ops', out') \<Longrightarrow> set ops' \<union> set out' \<subseteq> set ops \<union> set out"
proof (induction ops arbitrary: out)
  case Nil
  then show ?case by auto
next
  case (Cons tp ops)
  show ?case
  proof (cases "pop_operators t (tp # ops) out = pop_operators t ops (out @ [tp])")
    case True
    with Cons.prems have "pop_operators t ops (out @ [tp]) = (ops', out')" by simp
    from Cons.IH [OF this] show ?thesis by auto
  next
    case False
    then have "pop_operators t (tp # ops) out = (tp # ops, out)"
      by (auto simp: Let_def split: if_splits)
    with Cons.prems show ?thesis by auto
  qed
qed

lemma pop_to_lparen_subset:
  "pop_to_lparen ops out = Some (ops', out') \<Longrightarrow> set ops' \<union> set out' \<subseteq> set ops \<union> set out"
proof (induction ops arbitrary: out)
  case Nil
  then show ?case by simp
next
  case (Cons tp ops)
  show ?case
  proof (cases "tok_type tp = TOK_LPAREN")
    case True
    with Cons.prems show ?thesis by auto
  next
    case False
    with Cons.prems have "pop_to_lparen ops (out @ [tp]) = Some (ops', out')" by simp
    from Cons.IH [OF this] show ?thesis by auto
  qed
qed

lemma drain_ops_subset:
  "drain_ops ops out = Some r \<Longrightarrow> set r \<subseteq> set ops \<union> set out"
proof (induction ops arbitrary: out)
  case Nil
  then show ?case by simp
next
  case (Cons tp ops)
  then have "drain_ops ops (out @ [tp]) = Some r" by (simp split: if_splits)
  from Cons.IH [OF this] show ?case by auto
qed

lemma to_rpn_loop_subset:
  "to_rpn_loop ts ops out = Some (ops', out') \<Longrightarrow>
   set ops' \<union> set out' \<subseteq> set ts \<union> set ops \<union> set out"
proof (induction ts arbitrary: ops out)
  case Nil
  then show ?case by auto
next
  case (Cons t ts)
  show ?case
  proof (cases "tok_type t")
    case TOK_TERM
    with Cons.prems have "to_rpn_loop ts ops (out @ [t]) = Some (ops', out')" by simp
    from Cons.IH [OF this] show ?thesis by auto
  next
    case TOK_LPAREN
    with Cons.prems have "to_rpn_loop ts (t # ops) out = Some (ops', out')"
      by (simp add: is_operator_def)
    from Cons.IH [OF this] show ?thesis by auto
  next
    case TOK_RPAREN
    with Cons.prems obtain o1 out1 where
      p: "pop_to_lparen ops out = Some (o1, out1)" and r: "to_rpn_loop ts o1 out1 = Some (ops', out')"
      by (auto simp: is_operator_def split: option.splits)
    from Cons.IH [OF r] pop_to_lparen_subset [OF p] show ?thesis by auto
  next
    case op: TOK_AND
    obtain o1 out1 where p: "pop_operators t ops out = (o1, out1)" by force
    with Cons.prems op have r: "to_rpn_loop ts (t # o1) out1 = Some (ops', out')"
      by (simp add: is_operator_def)
    from Cons.IH [OF r] pop_operators_subset [OF p] show ?thesis by auto
  next
    case op: TOK_OR
    obtain o1 out1 where p: "pop_operators t ops out = (o1, out1)" by force
    with Cons.prems op have r: "to_rpn_loop ts (t # o1) out1 = Some (ops', out')"
      by (simp add: is_operator_def)
    from Cons.IH [OF r] pop_operators_subset [OF p] show ?thesis by auto
  next
    case op: TOK_NOT
    obtain o1 out1 where p: "pop_operators t ops out = (o1, out1)" by force
    with Cons.prems op have r: "to_rpn_loop ts (t # o1) out1 = Some (ops', out')"
      by (simp add: is_operator_def)
    from Cons.IH [OF r] pop_operators_subset [OF p] show ?thesis by auto
  qed
qed

lemma to_rpn_subset: "to_rpn ts = Some rpn \<Longrightarrow> set rpn \<subseteq> set ts"
proof -
  assume "to_rpn ts = Some rpn"
  then obtain ops out where l: "to_rpn_loop ts [] [] = Some (ops, out)"
    and d: "drain_ops ops out = Some rpn"
    by (auto simp: to_rpn_def split: option.splits)
  from to_rpn_loop_subset [OF l] drain_ops_subset [OF d] show ?thesis by auto
qed

lemma eval_rpn_loop_absent:
  "eval_rpn_loop idx ts stack = Some stack' \<Longrightarrow> list_all (plain_absent idx) ts \<Longrightarrow>
   list_all (\<lambda>l. l = []) stack \<Longrightarrow> list_all (\<lambda>l. l = []) stack'"
proof (induction ts arbitrary: stack)
  case Nil
  then show ?case by simp
next
  case (Cons t ts)
  from Cons.prems(2) have pa: "plain_absent idx t" and rest: "list_all (plain_absent idx) ts"
    by simp_all
  show ?case
  proof (cases "tok_type t")
    case TOK_TERM
    with Cons.prems(1) obtain tx where tx: "tok_text t = Some tx"
      by (auto split: option.splits)
    with pa TOK_TERM have "tx \<notin> lex_term ` set (lexicon idx)"
      by (simp add: plain_absent_def term_absent_def)
    then have "lexicon_find idx tx = None" by (rule lexicon_find_absent)
    with Cons.prems(1) TOK_TERM tx have "eval_rpn_loop idx ts ([] # stack) = Some stack'" by simp
    from Cons.IH [OF this rest] Cons.prems(3) show ?thesis by simp
  next
    case TOK_NOT
    with pa show ?thesis by (simp add: plain_absent_def)
  next
    case TOK_AND
    with Cons.prems(1) obtain b a st where st: "stack = b # a # st"
      by (cases stack; cases "tl stack") auto
    with Cons.prems(3) have e: "a = []" "b = []" "list_all (\<lambda>l. l = []) st" by simp_all
    from Cons.prems(1) TOK_AND st have "eval_rpn_loop idx ts (op_and a b # st) = Some stack'" by simp
    from Cons.IH [OF this rest] e show ?thesis by simp
  next
    case TOK_OR
    with Cons.prems(1) obtain b a st where st: "stack = b # a # st"
      by (cases stack; cases "tl stack") auto
    with Cons.prems(3) have e: "a = []" "b = []" "list_all (\<lambda>l. l = []) st" by simp_all
    from Cons.prems(1) TOK_OR st have "eval_rpn_loop idx ts (op_or a b # st) = Some stack'" by simp
    from Cons.IH [OF this rest] e show ?thesis by simp
  next
    case TOK_LPAREN
    with Cons.prems(1) have "eval_rpn_loop idx ts stack = Some stack'" by simp
    from Cons.IH [OF this rest Cons.prems(3)] show ?thesis .
  next
    case TOK_RPAREN
    with Cons.prems(1) have "eval_rpn_loop idx ts stack = Some stack'" by simp
    from Cons.IH [OF this rest Cons.prems(3)] show ?thesis .
  qed
qed

lemma dec_digits_0: "dec_digits 0 = ''0''"
  by (subst dec_digits.simps) (simp add: digit_char_def)

lemma print_results_empty:
  "print_results idx [] offset limit = [''TOTAL'' @ [CHR 0x09] @ ''0'' @ [CHR 0x0A]]"
  by (simp add: print_results_def total_line_def dec_digits_0)

text \<open>
  C8.  For every query without a NOT token whose term tokens (lowercased and stemmed) are
  all absent from the lexicon of the loaded index, whenever the query is answered (it is
  parsed and evaluated without error) the output is exactly the line \<open>TOTAL\<close>, tab,
  \<open>0\<close>, with no \<open>DOC\<close> line.
\<close>

theorem absent_terms_without_not:
  assumes "list_all (plain_absent idx) (tokenize_query query)"
    and "run_single_query idx query offset limit = Inr out"
  shows "out = [''TOTAL'' @ [CHR 0x09] @ ''0'' @ [CHR 0x0A]]"
proof (cases "tokenize_query query = []")
  case True
  then show ?thesis using assms(2) by (simp add: run_single_query_def)
next
  case False
  with assms(2) obtain rpn result where rpn: "to_rpn (tokenize_query query) = Some rpn"
    and ev: "eval_rpn idx rpn = Some result" and out: "out = print_results idx result offset limit"
    by (auto simp: run_single_query_def Let_def split: option.splits)
  have "list_all (plain_absent idx) rpn"
    using to_rpn_subset [OF rpn] assms(1) by (auto simp: list_all_iff)
  moreover from ev have "eval_rpn_loop idx rpn [] = Some [result]"
    by (auto simp: eval_rpn_def split: option.splits list.splits)
  ultimately have "list_all (\<lambda>l. l = []) [result]"
    using eval_rpn_loop_absent by fastforce
  then show ?thesis using out by (simp add: print_results_empty)
qed

subsection \<open>The example index\<close>

lemmas lex_eval = tokenize_query_spec isspace_c_def isalnum_c_def tolower_c_def
  stem_term_inplace_def ends_with_def and_needed_between_def mk_token_def

lemmas parse_eval = to_rpn_def is_operator_def precedence_def is_right_assoc_def

lemmas find_eval = lexicon_find_def lexicon_find_loop.simps strcmp_def demo_index_def

lemma demo_index_wf: "index_wf demo_index"
  by (simp add: index_wf_def index_sorted_def demo_index_def posting_region_def)

lemma demo_find_fox: "lexicon_find demo_index ''fox'' = Some (4, 3)"
  by (simp add: find_eval)

lemma demo_find_brown: "lexicon_find demo_index ''brown'' = Some (0, 1)"
  by (simp add: find_eval)

lemma demo_find_zebra: "lexicon_find demo_index ''zebra'' = None"
  by (simp add: find_eval)

lemma demo_tokens: "tokenize_query ''fox && brown'' =
    [mk_token TOK_TERM (Some ''fox''), mk_token TOK_AND None, mk_token TOK_TERM (Some ''brown'')]"
  by (simp add: lex_eval)

lemma demo_evaluate: "evaluate demo_index ''fox && brown'' = Inr [1]"
  by (simp add: evaluate_def demo_tokens parse_eval mk_token_def eval_rpn_def
      demo_find_fox demo_find_brown) (simp add: demo_index_def)

lemma run_single_query_evaluate:
  "run_single_query idx query offset limit =
     (case evaluate idx query of
        Inl e \<Rightarrow> Inl e
      | Inr result \<Rightarrow> Inr (print_results idx result offset limit))"
  by (simp add: run_single_query_def evaluate_def Let_def print_results_empty
      split: option.splits)

theorem de_morgan_witness:
  "sorted_wrt (<) (universe_ids demo_index) \<and> ''fox'' \<noteq> [] \<and> list_all isalnum_c ''fox''
   \<and> ''brown'' \<noteq> [] \<and> list_all isalnum_c ''brown''
   \<and> evaluate demo_index ''!fox || !brown'' = Inr [2, 3]
   \<and> evaluate demo_index ''!(fox && brown)'' = Inr [2, 3]"
proof -
  have s: "sorted_wrt (<) (universe_ids demo_index)" by (simp add: demo_index_def)
  have f: "list_all isalnum_c ''fox''" "list_all isalnum_c ''brown''"
    by (simp_all add: isalnum_c_def)
  have "tokenize_query ''!fox || !brown'' =
      [mk_token TOK_NOT None, mk_token TOK_TERM (Some ''fox''), mk_token TOK_OR None,
       mk_token TOK_NOT None, mk_token TOK_TERM (Some ''brown'')]"
    by (simp add: lex_eval)
  then have r: "evaluate demo_index ''!fox || !brown'' = Inr [2, 3]"
    by (simp add: evaluate_def parse_eval mk_token_def eval_rpn_def
        demo_find_fox demo_find_brown op_not_def) (simp add: demo_index_def)
  from de_morgan [OF s _ f(1) _ f(2)] r s f show ?thesis by simp
qed

theorem absent_terms_without_not_witness:
  "list_all (plain_absent demo_index) (tokenize_query ''zebra || (gnu yak)'')
   \<and> run_single_query demo_index ''zebra || (gnu yak)'' 0 50
       = Inr [''TOTAL'' @ [CHR 0x09] @ ''0'' @ [CHR 0x0A]]"
proof -
  have t: "tokenize_query ''zebra || (gnu yak)'' =
      [mk_token TOK_TERM (Some ''zebra''), mk_token TOK_OR None, mk_token TOK_LPAREN None,
       mk_token TOK_TERM (Some ''gnu''), mk_token TOK_AND None, mk_token TOK_TERM (Some ''yak''),
       mk_token TOK_RPAREN None]"
    by (simp add: lex_eval)
  have a: "list_all (plain_absent demo_index) (tokenize_query ''zebra || (gnu yak)'')"
    unfolding t by (simp add: plain_absent_def term_absent_def mk_token_def demo_index_def)
  have "\<exists>out. run_single_query demo_index ''zebra || (gnu yak)'' 0 50 = Inr out"
    unfolding run_single_query_def t
    by (simp add: parse_eval mk_token_def eval_rpn_def find_eval)
  then obtain out where o: "run_single_query demo_index ''zebra || (gnu yak)'' 0 50 = Inr out"
    by blast
  from absent_terms_without_not [OF a o] a o show ?thesis by simp
qed

text \<open>
  A query whose only term is absent from the lexicon, under NOT: the result is the whole
  universe, so the output has three \<open>DOC\<close> lines.  C8 as stated fails there.
\<close>

theorem absent_term_under_not_counterexample:
  "tokenize_query ''!zebra'' = [mk_token TOK_NOT None, mk_token TOK_TERM (Some ''zebra'')]
   \<and> ''zebra'' \<notin> set (map lex_term (lexicon demo_index))
   \<and> run_single_query demo_index ''!zebra'' 0 50 =
       Inr [''TOTAL'' @ [CHR 0x09] @ ''3'' @ [CHR 0x0A],
            ''DOC'' @ [CHR 0x09] @ ''1'' @ [CHR 0x09] @ ''Alpha'' @ [CHR 0x09] @ ''u1'' @ [CHR 0x0A],
            ''DOC'' @ [CHR 0x09] @ ''2'' @ [CHR 0x09] @ ''Bravo'' @ [CHR 0x09] @ ''u2'' @ [CHR 0x0A],
            ''DOC'' @ [CHR 0x09] @ ''3'' @ [CHR 0x09] @ ''Charlie'' @ [CHR 0x09] @ ''u3'' @ [CHR 0x0A]]"
proof -
  have t: "tokenize_query ''!zebra'' = [mk_token TOK_NOT None, mk_token TOK_TERM (Some ''zebra'')]"
    by (simp add: lex_eval)
  have d: "dec_digits (Suc 0) = ''1''" "dec_digits 2 = ''2''" "dec_digits 3 = ''3''"
    by (subst dec_digits.simps, simp add: digit_char_def)+
  have u: "[0 ..< 3 :: nat] = [0, 1, 2]"
    by (simp add: upt_rec)
  have e: "eval_rpn demo_index [mk_token TOK_TERM (Some ''zebra''), mk_token TOK_NOT None]
      = Some [1, 2, 3]"
    by (simp add: eval_rpn_def mk_token_def demo_find_zebra op_not_def) (simp add: demo_index_def)
  have p: "print_results demo_index [1, 2, 3] 0 50 =
       [''TOTAL'' @ [CHR 0x09] @ ''3'' @ [CHR 0x0A],
        ''DOC'' @ [CHR 0x09] @ ''1'' @ [CHR 0x09] @ ''Alpha'' @ [CHR 0x09] @ ''u1'' @ [CHR 0x0A],
        ''DOC'' @ [CHR 0x09] @ ''2'' @ [CHR 0x09] @ ''Bravo'' @ [CHR 0x09] @ ''u2'' @ [CHR 0x0A],
        ''DOC'' @ [CHR 0x09] @ ''3'' @ [CHR 0x09] @ ''Charlie'' @ [CHR 0x09] @ ''u3'' @ [CHR 0x0A]]"
    by (simp add: print_results_def total_line_def doc_line_def d u Let_def demo_index_def)
  have r: "to_rpn [mk_token TOK_NOT None, mk_token TOK_TERM (Some ''zebra'')]
      = Some [mk_token TOK_TERM (Some ''zebra''), mk_token TOK_NOT None]"
    by (simp add: parse_eval mk_token_def)
  show ?thesis
    unfolding run_single_query_def t
    by (simp add: r e p) (simp add: demo_index_def)
qed

subsection \<open>Result window\<close>

text \<open>
  C9.  With the three results of \<open>fox\<close>, offset 1 and limit 4294967295 the 32-bit sum
  \<open>offset + limit\<close> wraps to 0, and the \<open>TOTAL\<close> line is all that is printed,
  although the window from 1 to the minimum of \<open>offset + limit\<close> and the count holds
  two results.  With limit 1 the one line of the window is printed.
\<close>

theorem result_window_wraps:
  "print_results demo_index [1, 2, 3] 1 4294967295 = [''TOTAL'' @ [CHR 0x09] @ ''3'' @ [CHR 0x0A]]
   \<and> run_single_query demo_index ''fox'' 1 4294967295
        = Inr [''TOTAL'' @ [CHR 0x09] @ ''3'' @ [CHR 0x0A]]
   \<and> run_single_query demo_index ''fox'' 1 1 =
        Inr [''TOTAL'' @ [CHR 0x09] @ ''3'' @ [CHR 0x0A],
             ''DOC'' @ [CHR 0x09] @ ''2'' @ [CHR 0x09] @ ''Bravo'' @ [CHR 0x09] @ ''u2'' @ [CHR 0x0A]]"
proof -
  have t: "tokenize_query ''fox'' = [mk_token TOK_TERM (Some ''fox'')]"
    by (simp add: lex_eval)
  have e: "evaluate demo_index ''fox'' = Inr [1, 2, 3]"
    by (simp add: evaluate_def t parse_eval mk_token_def eval_rpn_def demo_find_fox)
      (simp add: demo_index_def)
  have d: "dec_digits 3 = ''3''" "dec_digits 2 = ''2''"
    by (subst dec_digits.simps, simp add: digit_char_def)+
  have u: "[Suc 0 ..< 2] = [1]" by (simp add: upt_rec)
  have a: "print_results demo_index [1, 2, 3] 1 4294967295 = [''TOTAL'' @ [CHR 0x09] @ ''3'' @ [CHR 0x0A]]"
    by (simp add: print_results_def total_line_def d Let_def)
  have b: "print_results demo_index [1, 2, 3] 1 1 =
        [''TOTAL'' @ [CHR 0x09] @ ''3'' @ [CHR 0x0A],
         ''DOC'' @ [CHR 0x09] @ ''2'' @ [CHR 0x09] @ ''Bravo'' @ [CHR 0x09] @ ''u2'' @ [CHR 0x0A]]"
    by (simp add: print_results_def total_line_def doc_line_def d u Let_def demo_index_def
        word_le_nat_alt word_less_nat_alt)
  show ?thesis by (simp add: run_single_query_evaluate e a b)
qed

lemma print_results_window:
  assumes "length ids < 2 ^ 32" and "unat offset + unat limit < 2 ^ 32"
  shows "print_results idx ids offset limit =
     total_line (word_of_nat (length ids))
       # map (doc_line idx ids) [unat offset ..< min (unat offset + unat limit) (length ids)]"
proof -
  let ?count = "word_of_nat (length ids) :: u32"
  have c: "unat ?count = length ids"
    using assms(1) by (simp add: unat_of_nat)
  have e: "unat (offset + limit) = unat offset + unat limit"
    using assms(2) unat_add_lem [of offset limit] by simp
  show ?thesis
  proof (cases "offset \<ge> ?count")
    case True
    then have "length ids \<le> unat offset" using c by (simp add: word_le_nat_alt)
    then show ?thesis using True by (simp add: print_results_def)
  next
    case False
    show ?thesis
    proof (cases "offset + limit > ?count")
      case True
      then have "length ids < unat offset + unat limit"
        using c e by (simp add: word_less_nat_alt)
      then show ?thesis using False True c
        by (simp add: print_results_def Let_def min_def)
    next
      case nf: False
      then have "unat offset + unat limit \<le> length ids"
        using c e by (simp add: word_less_nat_alt)
      then show ?thesis using False nf e
        by (simp add: print_results_def Let_def min_def)
    qed
  qed
qed

section \<open>Properties of the index builder\<close>

subsection \<open>The probing loop\<close>

lemma add_term_doc_loop_find:
  "add_term_doc_loop table capacity tm doc_id idx step =
     (case find_slot table capacity tm idx step of
        None \<Rightarrow> None
      | Some i \<Rightarrow>
          (case record_doc (if used (table ! i) then table ! i else fresh_entry (table ! i) tm)
                  doc_id of
             None \<Rightarrow> None
           | Some e \<Rightarrow> Some (table[i := e])))"
proof (induction table capacity tm doc_id idx step rule: add_term_doc_loop.induct)
  case (1 table capacity tm doc_id idx step)
  show ?case
  proof (cases "step < capacity")
    case False
    then show ?thesis
      by (subst add_term_doc_loop.simps, subst find_slot.simps) simp
  next
    case True
    show ?thesis
    proof (cases "used (table ! idx) \<and> te_term (table ! idx) \<noteq> tm")
      case True
      have a: "add_term_doc_loop table capacity tm doc_id idx step =
          add_term_doc_loop table capacity tm doc_id ((idx + 1) mod capacity) (step + 1)"
        using \<open>step < capacity\<close> True by (subst add_term_doc_loop.simps) (simp add: Let_def)
      have b: "find_slot table capacity tm idx step =
          find_slot table capacity tm ((idx + 1) mod capacity) (step + 1)"
        using \<open>step < capacity\<close> True by (subst find_slot.simps) (simp add: Let_def)
      show ?thesis
        unfolding a b using "1.IH" [OF \<open>step < capacity\<close> refl] True by simp
    next
      case False
      then show ?thesis
        using \<open>step < capacity\<close>
        by (subst add_term_doc_loop.simps, subst find_slot.simps)
          (auto simp: Let_def fresh_entry_def)
    qed
  qed
qed

lemma find_slot_bound:
  "find_slot table capacity tm idx step = Some i \<Longrightarrow> idx < capacity \<Longrightarrow> i < capacity"
proof (induction table capacity tm idx step rule: find_slot.induct)
  case (1 table capacity tm idx step)
  from "1.prems"(1) have lt: "step < capacity"
    by (subst (asm) find_slot.simps) (simp split: if_splits)
  show ?case
  proof (cases "used (table ! idx) \<and> te_term (table ! idx) \<noteq> tm")
    case True
    with "1.prems"(1) lt have "find_slot table capacity tm ((idx + 1) mod capacity) (step + 1) = Some i"
      by (subst (asm) find_slot.simps) (simp add: Let_def)
    moreover have "(idx + 1) mod capacity < capacity" using lt by simp
    ultimately show ?thesis using "1.IH" [OF lt refl] True by simp
  next
    case False
    with "1.prems" lt show ?thesis
      by (subst (asm) find_slot.simps) (auto simp: Let_def split: if_splits)
  qed
qed

subsection \<open>Posting lists stay strictly ascending\<close>

lemma sorted_le_last:
  "sorted_wrt (<) xs \<Longrightarrow> p \<in> set xs \<Longrightarrow> p \<le> last (xs :: u32 list)"
  by (induction xs) (auto simp: less_imp_le)

lemma entry_ok_mono: "entry_ok d e \<Longrightarrow> d \<le> d' \<Longrightarrow> entry_ok d' e"
  unfolding entry_ok_def list_all_iff using order_trans by blast

lemma record_doc_ok:
  assumes "record_doc e d' = Some e'" and "entry_ok d e" and "d \<le> d'"
  shows "entry_ok d' e'"
proof (cases "length (postings e) = 0 \<or> last_doc_id e \<noteq> d'")
  case False
  then have "e' = e" using assms(1) by (simp add: record_doc_def)
  then show ?thesis using entry_ok_mono [OF assms(2,3)] by simp
next
  case True
  then have e': "e' = e\<lparr>postings := postings e @ [d'], last_doc_id := d'\<rparr>"
    using assms(1) by (simp add: record_doc_def split: if_splits)
  have "p < d'" if "p \<in> set (postings e)" for p
  proof -
    from that have ne: "postings e \<noteq> []" by auto
    then have l: "last (postings e) = last_doc_id e" using assms(2) by (simp add: entry_ok_def)
    have "p \<le> last (postings e)" using sorted_le_last assms(2) that by (simp add: entry_ok_def)
    moreover have "last (postings e) \<le> d'"
      using assms(2,3) ne last_in_set [OF ne] by (auto simp: entry_ok_def list_all_iff)
    moreover have "last (postings e) \<noteq> d'" using True ne l by simp
    ultimately show ?thesis by simp
  qed
  then show ?thesis using assms(2) e'
    by (auto simp: entry_ok_def sorted_wrt_append list_all_iff less_imp_le)
qed

lemma entry_ok_fresh: "entry_ok d (fresh_entry e tm)"
  by (simp add: entry_ok_def fresh_entry_def)

lemma table_ok_mono: "table_ok d table \<Longrightarrow> d \<le> d' \<Longrightarrow> table_ok d' table"
  unfolding table_ok_def list_all_iff using entry_ok_mono by blast

lemma add_term_doc_ok:
  assumes "add_term_doc table capacity tm d' = Some table'" and "table_ok d table" and "d \<le> d'"
    and "capacity = length table"
  shows "table_ok d' table'"
proof -
  from assms(1) obtain i e where
    i: "find_slot table capacity tm (unat (djb2 tm) mod capacity) 0 = Some i"
    and r: "record_doc (if used (table ! i) then table ! i else fresh_entry (table ! i) tm) d' = Some e"
    and t: "table' = table[i := e]"
    by (auto simp: add_term_doc_def add_term_doc_loop_find split: option.splits)
  have cpos: "0 < capacity"
    using i by (subst (asm) find_slot.simps) (simp split: if_splits)
  have ilt: "i < length table"
    using find_slot_bound [OF i] cpos assms(4) by simp
  have "entry_ok d (if used (table ! i) then table ! i else fresh_entry (table ! i) tm)"
    using assms(2) ilt entry_ok_fresh by (auto simp: table_ok_def list_all_iff)
  then have "entry_ok d' e" using record_doc_ok [OF r _ assms(3)] by simp
  moreover have "table_ok d' table" by (rule table_ok_mono [OF assms(2,3)])
  ultimately show ?thesis
    unfolding t table_ok_def list_all_iff using set_update_subset_insert [of table i e] by auto
qed

lemma add_term_doc_length:
  "add_term_doc table capacity tm d = Some table' \<Longrightarrow> length table' = length table"
  by (auto simp: add_term_doc_def add_term_doc_loop_find split: option.splits)

lemma add_line_tokens_ok:
  "add_line_tokens table capacity d' body = Some table' \<Longrightarrow> table_ok d table \<Longrightarrow> d \<le> d' \<Longrightarrow>
   capacity = length table \<Longrightarrow> table_ok d' table' \<and> length table' = length table"
proof (induction body arbitrary: table d)
  case Nil
  then show ?case using table_ok_mono by auto
next
  case (Cons tk tks)
  show ?case
  proof (cases "tk = []")
    case True
    then show ?thesis using Cons by simp
  next
    case False
    with Cons.prems(1) obtain t1 where a: "add_term_doc table capacity tk d' = Some t1"
      and b: "add_line_tokens t1 capacity d' tks = Some table'"
      by (auto split: option.splits)
    have "table_ok d' t1" by (rule add_term_doc_ok [OF a Cons.prems(2,3,4)])
    moreover have "length t1 = length table" by (rule add_term_doc_length [OF a])
    ultimately show ?thesis using Cons.IH [OF b, of d'] Cons.prems(4) by simp
  qed
qed

lemma scan_stemmed_ok:
  "scan_stemmed table capacity lines = Some table' \<Longrightarrow> table_ok d table \<Longrightarrow>
   sorted (map fst lines) \<Longrightarrow> list_all (\<lambda>l. d \<le> fst l) lines \<Longrightarrow> capacity = length table \<Longrightarrow>
   list_all (\<lambda>e. \<not> used e \<or> sorted_wrt (<) (postings e)) table'"
proof (induction lines arbitrary: table d)
  case Nil
  then show ?case by (auto simp: table_ok_def entry_ok_def list_all_iff)
next
  case (Cons l lines)
  obtain d' body where l: "l = (d', body)" by force
  with Cons.prems(1) obtain t1 where a: "add_line_tokens table capacity d' body = Some t1"
    and b: "scan_stemmed t1 capacity lines = Some table'"
    by (auto split: option.splits)
  have dd: "d \<le> d'" using Cons.prems(4) l by simp
  have t1: "table_ok d' t1 \<and> length t1 = length table"
    by (rule add_line_tokens_ok [OF a Cons.prems(2) dd Cons.prems(5)])
  have "list_all (\<lambda>l. d' \<le> fst l) lines" using Cons.prems(3) l by (auto simp: list_all_iff)
  moreover have "sorted (map fst lines)" using Cons.prems(3) by simp
  ultimately show ?case using Cons.IH [OF b, of d'] t1 Cons.prems(5) by simp
qed

subsection \<open>Linear probing keeps one slot per term\<close>

lemma probe_path_iff:
  "probe_path table tm start n \<longleftrightarrow>
     (\<forall>k<n. used (table ! ((start + k) mod length table))
            \<and> te_term (table ! ((start + k) mod length table)) \<noteq> tm)"
  by (auto simp: probe_path_def list_all_iff)

lemma slot_reached_iff:
  "slot_reached table i \<longleftrightarrow>
     (\<exists>n<length table. i = (slot_hash (te_term (table ! i)) (length table) + n) mod length table
        \<and> probe_path table (te_term (table ! i)) (slot_hash (te_term (table ! i)) (length table)) n)"
  by (auto simp: slot_reached_def list_ex_iff)

lemma table_inv_iff:
  "table_inv table \<longleftrightarrow> (\<forall>i<length table. used (table ! i) \<longrightarrow> slot_reached table i)"
  by (auto simp: table_inv_def list_all_iff)

lemma find_slot_path:
  "find_slot table capacity tm idx step = Some i \<Longrightarrow> capacity = length table \<Longrightarrow> idx < capacity \<Longrightarrow>
   \<exists>m. step + m < capacity \<and> i = (idx + m) mod capacity \<and> probe_path table tm idx m
       \<and> (\<not> used (table ! i) \<or> te_term (table ! i) = tm)"
proof (induction table capacity tm idx step rule: find_slot.induct)
  case (1 table capacity tm idx step)
  from "1.prems"(1) have lt: "step < capacity"
    by (subst (asm) find_slot.simps) (simp split: if_splits)
  show ?case
  proof (cases "used (table ! idx) \<and> te_term (table ! idx) \<noteq> tm")
    case False
    with "1.prems"(1) lt have "i = idx"
      by (subst (asm) find_slot.simps) (auto simp: Let_def split: if_splits)
    then show ?thesis using False lt "1.prems"(3)
      by (intro exI [of _ 0]) (auto simp: probe_path_iff)
  next
    case True
    with "1.prems"(1) lt
    have r: "find_slot table capacity tm ((idx + 1) mod capacity) (step + 1) = Some i"
      by (subst (asm) find_slot.simps) (simp add: Let_def)
    have "(idx + 1) mod capacity < capacity" using lt by simp
    from "1.IH" [OF lt refl _ _ r "1.prems"(2) this] True
    obtain m where m: "step + 1 + m < capacity" "i = ((idx + 1) mod capacity + m) mod capacity"
      "probe_path table tm ((idx + 1) mod capacity) m"
      "\<not> used (table ! i) \<or> te_term (table ! i) = tm"
      by auto
    have e: "((idx + 1) mod capacity + k) mod capacity = (idx + Suc k) mod capacity" for k
      by (simp add: mod_add_left_eq)
    have "probe_path table tm idx (Suc m)"
      unfolding probe_path_iff
    proof (intro allI impI)
      fix k assume k: "k < Suc m"
      show "used (table ! ((idx + k) mod length table))
            \<and> te_term (table ! ((idx + k) mod length table)) \<noteq> tm"
      proof (cases k)
        case 0
        then show ?thesis using True "1.prems"(2,3) by simp
      next
        case (Suc k')
        then have "k' < m" using k by simp
        with m(3) show ?thesis
          unfolding probe_path_iff using e [of k'] Suc "1.prems"(2) by auto
      qed
    qed
    then show ?thesis using m e [of m]
      by (intro exI [of _ "Suc m"]) auto
  qed
qed

lemma find_slot_none:
  "find_slot table capacity tm idx step = None \<Longrightarrow> capacity = length table \<Longrightarrow> idx < capacity \<Longrightarrow>
   probe_path table tm idx (capacity - step)"
proof (induction table capacity tm idx step rule: find_slot.induct)
  case (1 table capacity tm idx step)
  show ?case
  proof (cases "step < capacity")
    case False
    then show ?thesis by (simp add: probe_path_iff)
  next
    case lt: True
    from "1.prems"(1) lt have u: "used (table ! idx) \<and> te_term (table ! idx) \<noteq> tm"
      by (subst (asm) find_slot.simps) (auto simp: Let_def split: if_splits)
    with "1.prems"(1) lt
    have r: "find_slot table capacity tm ((idx + 1) mod capacity) (step + 1) = None"
      by (subst (asm) find_slot.simps) (simp add: Let_def)
    have "(idx + 1) mod capacity < capacity" using lt by simp
    from "1.IH" [OF lt refl _ _ r "1.prems"(2) this] u
    have p: "probe_path table tm ((idx + 1) mod capacity) (capacity - (step + 1))" by simp
    have e: "((idx + 1) mod capacity + k) mod capacity = (idx + Suc k) mod capacity" for k
      by (simp add: mod_add_left_eq)
    show ?thesis
      unfolding probe_path_iff
    proof (intro allI impI)
      fix k assume k: "k < capacity - step"
      show "used (table ! ((idx + k) mod length table))
            \<and> te_term (table ! ((idx + k) mod length table)) \<noteq> tm"
      proof (cases k)
        case 0
        then show ?thesis using u "1.prems"(2,3) by simp
      next
        case (Suc k')
        then have "k' < capacity - (step + 1)" using k by simp
        with p show ?thesis
          unfolding probe_path_iff using e [of k'] Suc "1.prems"(2) by auto
      qed
    qed
  qed
qed

lemma probe_covers:
  assumes "h < c" and "j < (c::nat)"
  shows "\<exists>k<c. (h + k) mod c = j"
proof (intro exI conjI)
  show "(j + c - h) mod c < c" using assms by simp
  have "(h + (j + c - h) mod c) mod c = (h + (j + c - h)) mod c"
    by (simp add: mod_add_right_eq)
  also have "\<dots> = (j + c) mod c" using assms by simp
  also have "\<dots> = j" using assms by simp
  finally show "(h + (j + c - h) mod c) mod c = j" .
qed

lemma find_slot_succeeds:
  assumes "j < length table" and "\<not> used (table ! j)"
  shows "\<exists>i. find_slot table (length table) tm (slot_hash tm (length table)) 0 = Some i"
proof (rule ccontr)
  assume "\<not> ?thesis"
  then have n: "find_slot table (length table) tm (slot_hash tm (length table)) 0 = None" by auto
  have "0 < length table" using assms(1) by arith
  then have h: "slot_hash tm (length table) < length table"
    unfolding slot_hash_def by (rule mod_less_divisor)
  from find_slot_none [OF n refl h]
  have p: "probe_path table tm (slot_hash tm (length table)) (length table)" by simp
  from probe_covers [OF h assms(1)] obtain k where
    "k < length table" "(slot_hash tm (length table) + k) mod length table = j" by blast
  with p have "used (table ! j)" unfolding probe_path_iff by auto
  with assms(2) show False by simp
qed

lemma record_doc_keeps:
  "record_doc e d = Some e' \<Longrightarrow> te_term e' = te_term e \<and> used e' = used e"
  by (auto simp: record_doc_def split: if_splits)

lemma add_term_doc_slot:
  assumes "add_term_doc table capacity tm d = Some table'" and "capacity = length table"
  shows "\<exists>i e m. i < length table \<and> table' = table[i := e] \<and> used e \<and> te_term e = tm
           \<and> (used (table ! i) \<longrightarrow> te_term (table ! i) = tm)
           \<and> m < length table \<and> i = (slot_hash tm (length table) + m) mod length table
           \<and> probe_path table tm (slot_hash tm (length table)) m"
proof -
  from assms obtain i e where
    i: "find_slot table (length table) tm (slot_hash tm (length table)) 0 = Some i"
    and r: "record_doc (if used (table ! i) then table ! i else fresh_entry (table ! i) tm) d = Some e"
    and t: "table' = table[i := e]"
    by (auto simp: add_term_doc_def add_term_doc_loop_find slot_hash_def split: option.splits)
  have cpos: "0 < length table"
    using i by (subst (asm) find_slot.simps) (simp split: if_splits)
  then have h: "slot_hash tm (length table) < length table"
    unfolding slot_hash_def by (rule mod_less_divisor)
  from find_slot_path [OF i refl h] obtain m where
    m: "m < length table" "i = (slot_hash tm (length table) + m) mod length table"
       "probe_path table tm (slot_hash tm (length table)) m"
       "\<not> used (table ! i) \<or> te_term (table ! i) = tm"
    by auto
  have ilt: "i < length table" using m(2) cpos by simp
  have "used e \<and> te_term e = tm"
    using record_doc_keeps [OF r] m(4) by (auto simp: fresh_entry_def)
  then show ?thesis using ilt t m by blast
qed

lemma probe_path_update:
  assumes "probe_path table tm start n" and "i < length table"
    and "used (table ! i) \<longrightarrow> used e \<and> te_term e = te_term (table ! i)"
  shows "probe_path (table[i := e]) tm start n"
  unfolding probe_path_iff
proof (intro allI impI)
  fix k assume "k < n"
  with assms(1) have u: "used (table ! ((start + k) mod length table))"
    "te_term (table ! ((start + k) mod length table)) \<noteq> tm"
    unfolding probe_path_iff by auto
  show "used (table[i := e] ! ((start + k) mod length (table[i := e])))
        \<and> te_term (table[i := e] ! ((start + k) mod length (table[i := e]))) \<noteq> tm"
  proof (cases "(start + k) mod length table = i")
    case True
    then show ?thesis using u assms(2,3) by simp
  next
    case False
    then show ?thesis using u by simp
  qed
qed

lemma table_inv_add:
  assumes "add_term_doc table capacity tm d = Some table'" and "capacity = length table"
    and "table_inv table"
  shows "table_inv table'"
proof -
  from add_term_doc_slot [OF assms(1,2)] obtain i e m where
    s: "i < length table" "table' = table[i := e]" "used e" "te_term e = tm"
       "used (table ! i) \<longrightarrow> te_term (table ! i) = tm"
       "m < length table" "i = (slot_hash tm (length table) + m) mod length table"
       "probe_path table tm (slot_hash tm (length table)) m"
    by blast
  have keep: "used (table ! i) \<longrightarrow> used e \<and> te_term e = te_term (table ! i)"
    using s(3,4,5) by simp
  show ?thesis
    unfolding table_inv_iff
  proof (intro allI impI)
    fix j assume j: "j < length table'" and uj: "used (table' ! j)"
    show "slot_reached table' j"
    proof (cases "j = i")
      case True
      have "probe_path table' tm (slot_hash tm (length table)) m"
        unfolding s(2) by (rule probe_path_update [OF s(8) s(1) keep])
      then show ?thesis
        unfolding slot_reached_iff using True s by (intro exI [of _ m]) simp
    next
      case False
      then have same: "table' ! j = table ! j" using s(2) by simp
      with j uj assms(3) s(2) have "slot_reached table j"
        unfolding table_inv_iff by simp
      then obtain n where n: "n < length table"
        "j = (slot_hash (te_term (table ! j)) (length table) + n) mod length table"
        "probe_path table (te_term (table ! j)) (slot_hash (te_term (table ! j)) (length table)) n"
        unfolding slot_reached_iff by blast
      have "probe_path table' (te_term (table ! j)) (slot_hash (te_term (table ! j)) (length table)) n"
        unfolding s(2) by (rule probe_path_update [OF n(3) s(1) keep])
      then show ?thesis
        unfolding slot_reached_iff using n same s(2) by (intro exI [of _ n]) simp
    qed
  qed
qed

lemma table_inv_unique:
  assumes "table_inv table" and "i < length table" and "j < length table"
    and "used (table ! i)" and "used (table ! j)" and "te_term (table ! i) = te_term (table ! j)"
  shows "i = j"
proof -
  let ?c = "length table" and ?tm = "te_term (table ! i)"
  let ?h = "slot_hash ?tm ?c"
  from assms obtain n where n: "n < ?c" "i = (?h + n) mod ?c" "probe_path table ?tm ?h n"
    unfolding table_inv_iff slot_reached_iff by blast
  from assms obtain m where m: "m < ?c" "j = (?h + m) mod ?c" "probe_path table ?tm ?h m"
    unfolding table_inv_iff slot_reached_iff by (metis (no_types, lifting))
  show ?thesis
  proof (rule ccontr)
    assume ne: "i \<noteq> j"
    then have "n \<noteq> m" using n(2) m(2) by auto
    then consider "n < m" | "m < n" by linarith
    then show False
    proof cases
      case 1
      with m(3) n(2) have "te_term (table ! i) \<noteq> ?tm" unfolding probe_path_iff by auto
      then show False by simp
    next
      case 2
      with n(3) m(2) have "te_term (table ! j) \<noteq> ?tm" unfolding probe_path_iff by auto
      then show False using assms(6) by simp
    qed
  qed
qed

lemma distinct_map_filter_nth:
  "(\<And>i j. i < length xs \<Longrightarrow> j < length xs \<Longrightarrow> P (xs ! i) \<Longrightarrow> P (xs ! j) \<Longrightarrow>
       f (xs ! i) = f (xs ! j) \<Longrightarrow> i = j) \<Longrightarrow> distinct (map f (filter P xs))"
proof (induction xs)
  case Nil
  then show ?case by simp
next
  case (Cons x xs)
  have ih: "distinct (map f (filter P xs))"
  proof (rule Cons.IH)
    fix i j assume "i < length xs" "j < length xs" "P (xs ! i)" "P (xs ! j)" "f (xs ! i) = f (xs ! j)"
    then have "Suc i = Suc j" using Cons.prems [of "Suc i" "Suc j"] by simp
    then show "i = j" by simp
  qed
  show ?case
  proof (cases "P x")
    case False
    then show ?thesis using ih by simp
  next
    case True
    have "f x \<notin> f ` set (filter P xs)"
    proof
      assume "f x \<in> f ` set (filter P xs)"
      then obtain y where y: "y \<in> set xs" "P y" "f y = f x" by auto
      then obtain k where k: "k < length xs" "xs ! k = y" by (auto simp: in_set_conv_nth)
      then have "0 = Suc k" using Cons.prems [of 0 "Suc k"] True y by simp
      then show False by simp
    qed
    then show ?thesis using ih True by simp
  qed
qed

lemma table_inv_distinct: "table_inv table \<Longrightarrow> distinct (map te_term (filter used table))"
  by (rule distinct_map_filter_nth) (rule table_inv_unique)

lemma table_inv_empty: "table_inv (replicate n empty_entry)"
  by (simp add: table_inv_iff empty_entry_def)

lemma add_term_doc_terms:
  assumes "add_term_doc table capacity tm d = Some table'" and "capacity = length table"
  shows "te_term ` {e \<in> set table'. used e} = insert tm (te_term ` {e \<in> set table. used e})"
proof -
  from add_term_doc_slot [OF assms] obtain i e where
    s: "i < length table" "table' = table[i := e]" "used e" "te_term e = tm"
       "used (table ! i) \<longrightarrow> te_term (table ! i) = tm"
    by blast
  have a: "set table' \<subseteq> insert e (set table)"
    unfolding s(2) by (rule set_update_subset_insert)
  have b: "e \<in> set table'" unfolding s(2) using s(1) by (simp add: set_update_memI)
  have c: "x \<in> set table' \<or> x = table ! i" if "x \<in> set table" for x
  proof -
    from that obtain k where k: "k < length table" "table ! k = x" by (auto simp: in_set_conv_nth)
    show ?thesis
    proof (cases "k = i")
      case True
      then show ?thesis using k by simp
    next
      case False
      then have "table' ! k = x" using k s(2) by simp
      then show ?thesis using k s(2) by (metis length_list_update nth_mem)
    qed
  qed
  show ?thesis
  proof (intro equalityI subsetI)
    fix t assume "t \<in> te_term ` {e \<in> set table'. used e}"
    then obtain x where "x \<in> set table'" "used x" "t = te_term x" by auto
    then show "t \<in> insert tm (te_term ` {e \<in> set table. used e})"
      using a s(4) by auto
  next
    fix t assume "t \<in> insert tm (te_term ` {e \<in> set table. used e})"
    then consider "t = tm" | x where "x \<in> set table" "used x" "t = te_term x" by auto
    then show "t \<in> te_term ` {e \<in> set table'. used e}"
    proof cases
      case 1
      then show ?thesis using b s(3,4) by force
    next
      case 2
      from c [OF 2(1)] show ?thesis
      proof
        assume "x \<in> set table'"
        then show ?thesis using 2 by auto
      next
        assume "x = table ! i"
        then have "t = tm" using 2 s(5) by simp
        then show ?thesis using b s(3,4) by force
      qed
    qed
  qed
qed

subsection \<open>The terms of the table are the tokens of the input\<close>

lemma add_line_tokens_inv:
  "add_line_tokens table capacity d body = Some table' \<Longrightarrow> capacity = length table \<Longrightarrow>
   table_inv table \<Longrightarrow>
   table_inv table' \<and> length table' = length table
   \<and> used_terms table' = used_terms table \<union> {tk \<in> set body. tk \<noteq> []}"
proof (induction body arbitrary: table)
  case Nil
  then show ?case by simp
next
  case (Cons tk tks)
  show ?case
  proof (cases "tk = []")
    case True
    then show ?thesis using Cons by auto
  next
    case False
    with Cons.prems(1) obtain t1 where a: "add_term_doc table capacity tk d = Some t1"
      and b: "add_line_tokens t1 capacity d tks = Some table'"
      by (auto split: option.splits)
    have l: "length t1 = length table" by (rule add_term_doc_length [OF a])
    have i: "table_inv t1" by (rule table_inv_add [OF a Cons.prems(2,3)])
    have u: "used_terms t1 = insert tk (used_terms table)"
      unfolding used_terms_def by (rule add_term_doc_terms [OF a Cons.prems(2)])
    from Cons.IH [OF b _ i] l Cons.prems(2) u False show ?thesis by auto
  qed
qed

lemma scan_stemmed_inv:
  "scan_stemmed table capacity lines = Some table' \<Longrightarrow> capacity = length table \<Longrightarrow>
   table_inv table \<Longrightarrow>
   table_inv table' \<and> length table' = length table
   \<and> used_terms table' = used_terms table \<union> line_tokens lines"
proof (induction lines arbitrary: table)
  case Nil
  then show ?case by (simp add: line_tokens_def)
next
  case (Cons l lines)
  obtain d body where l: "l = (d, body)" by force
  with Cons.prems(1) obtain t1 where a: "add_line_tokens table capacity d body = Some t1"
    and b: "scan_stemmed t1 capacity lines = Some table'"
    by (auto split: option.splits)
  from add_line_tokens_inv [OF a Cons.prems(2,3)]
  have t1: "table_inv t1" "length t1 = length table"
    "used_terms t1 = used_terms table \<union> {tk \<in> set body. tk \<noteq> []}" by auto
  from Cons.IH [OF b _ t1(1)] t1(2,3) Cons.prems(2) l show ?case
    by (auto simp: line_tokens_def)
qed

lemma used_terms_empty: "used_terms (replicate n empty_entry) = {}"
  by (auto simp: used_terms_def empty_entry_def)

lemma distinct_map_sort_key: "distinct (map f (sort_key f xs)) = distinct (map f xs)"
  by (induction xs) (simp_all add: distinct_insort_key)

lemma sorted_terms_strict:
  "table_inv table \<Longrightarrow> sorted_wrt (<) (map te_term (sorted_terms table))"
  unfolding strict_sorted_iff sorted_terms_def
  by (simp add: distinct_map_sort_key table_inv_distinct)

lemma set_sorted_terms: "set (map te_term (sorted_terms table)) = used_terms table"
  by (auto simp: sorted_terms_def used_terms_def)

subsection \<open>Writing postings.bin and lexicon.bin\<close>

lemma write_postings_regions:
  "write_postings es off = (es', payload) \<Longrightarrow> off = 4 * length pre \<Longrightarrow>
   map (posting_region (pre @ payload)) (map write_lexicon_record es') = map postings es
   \<and> map te_term es' = map te_term es"
proof (induction es arbitrary: off pre es' payload)
  case Nil
  then show ?case by simp
next
  case (Cons e es)
  let ?off' = "if length (postings e) > 0 then off + length (postings e) * 4 else off"
  obtain es1 p1 where r: "write_postings es ?off' = (es1, p1)" by force
  with Cons.prems(1) have es': "es' = e\<lparr>postings_offset_bytes := off\<rparr> # es1"
    and p: "payload = postings e @ p1"
    by (simp_all add: Let_def)
  have o: "?off' = 4 * length (pre @ postings e)" using Cons.prems(2) by simp
  from Cons.IH [OF r o] have ih:
    "map (posting_region ((pre @ postings e) @ p1)) (map write_lexicon_record es1) = map postings es"
    "map te_term es1 = map te_term es" by simp_all
  have "posting_region (pre @ payload) (write_lexicon_record (e\<lparr>postings_offset_bytes := off\<rparr>))
        = postings e"
    using Cons.prems(2) p by (simp add: posting_region_def write_lexicon_record_def Let_def)
  then show ?case using ih es' p by simp
qed

lemma build_index_result:
  assumes "build_index arg lines = Some (payload, lxs)"
  shows "\<exists>table. scan_stemmed (replicate (term_hash_capacity arg) empty_entry)
             (term_hash_capacity arg) lines = Some table
           \<and> map (posting_region payload) lxs = map postings (sorted_terms table)
           \<and> map lex_term lxs = map (\<lambda>e. take 65535 (te_term e)) (sorted_terms table)"
proof -
  let ?c = "term_hash_capacity arg"
  from assms obtain table where
    s: "scan_stemmed (replicate ?c empty_entry) ?c lines = Some table"
    by (auto simp: build_index_def Let_def split: option.splits)
  obtain es' p where w: "write_postings (sorted_terms table) 0 = (es', p)" by force
  with assms s have r: "payload = p" "lxs = map write_lexicon_record es'"
    by (simp_all add: build_index_def Let_def)
  from write_postings_regions [OF w, of "[]"]
  have a: "map (posting_region p) (map write_lexicon_record es') = map postings (sorted_terms table)"
    and b: "map te_term es' = map te_term (sorted_terms table)" by simp_all
  have "map lex_term (map write_lexicon_record es') = map (take 65535) (map te_term es')"
    by (simp add: write_lexicon_record_def Let_def)
  then have "map lex_term lxs = map (take 65535) (map te_term (sorted_terms table))"
    using r b by simp
  then show ?thesis using s a r by (auto simp: comp_def)
qed

text \<open>
  C4.  When the document lines arrive in ascending \<open>doc_id\<close> order and the build
  succeeds, every posting list of the term table is strictly ascending, the regions of
  postings.bin that the lexicon records point at are these lists, in the order of the
  sorted terms, and so every region is strictly ascending.
\<close>

theorem builder_postings_strictly_ascending:
  assumes "sorted (map fst lines)" and "build_index arg lines = Some (payload, lxs)"
  shows "\<exists>table. scan_stemmed (replicate (term_hash_capacity arg) empty_entry)
             (term_hash_capacity arg) lines = Some table
           \<and> list_all (\<lambda>e. \<not> used e \<or> sorted_wrt (<) (postings e)) table
           \<and> map (posting_region payload) lxs = map postings (sorted_terms table)
           \<and> list_all (\<lambda>r. sorted_wrt (<) (posting_region payload r)) lxs"
proof -
  let ?c = "term_hash_capacity arg"
  from build_index_result [OF assms(2)] obtain table where
    s: "scan_stemmed (replicate ?c empty_entry) ?c lines = Some table"
    and m: "map (posting_region payload) lxs = map postings (sorted_terms table)"
    by blast
  have t0: "table_ok 0 (replicate ?c empty_entry)"
    by (simp add: table_ok_def list_all_iff empty_entry_def)
  have ok: "list_all (\<lambda>e. \<not> used e \<or> sorted_wrt (<) (postings e)) table"
    by (rule scan_stemmed_ok [OF s t0 assms(1)]) (simp_all add: list_all_iff)
  have "list_all (\<lambda>l. sorted_wrt (<) l) (map postings (sorted_terms table))"
    using ok by (auto simp: list_all_iff sorted_terms_def)
  then have "list_all (\<lambda>l. sorted_wrt (<) l) (map (posting_region payload) lxs)"
    using m by simp
  then have "list_all (\<lambda>r. sorted_wrt (<) (posting_region payload r)) lxs"
    by (simp add: list_all_iff)
  then show ?thesis using s ok m by blast
qed

text \<open>
  C5.  When the build succeeds and no token of the input is longer than 65535 bytes, the
  terms written to lexicon.bin are strictly ascending in byte-wise lexicographic order.
\<close>

theorem lexicon_terms_strictly_ascending:
  assumes "build_index arg lines = Some (payload, lxs)"
    and "list_all (\<lambda>l. list_all (\<lambda>tk. length tk \<le> 65535) (snd l)) lines"
  shows "sorted_wrt (<) (map lex_term lxs)"
proof -
  let ?c = "term_hash_capacity arg"
  from build_index_result [OF assms(1)] obtain table where
    s: "scan_stemmed (replicate ?c empty_entry) ?c lines = Some table"
    and m: "map lex_term lxs = map (\<lambda>e. take 65535 (te_term e)) (sorted_terms table)"
    by blast
  from scan_stemmed_inv [OF s _ table_inv_empty]
  have inv: "table_inv table" and u: "used_terms table = line_tokens lines"
    by (simp_all add: used_terms_empty)
  have "length t \<le> 65535" if "t \<in> line_tokens lines" for t
    using that assms(2) by (auto simp: line_tokens_def list_all_iff)
  then have "take 65535 (te_term e) = te_term e" if "e \<in> set (sorted_terms table)" for e
    using that u set_sorted_terms [of table] by (metis image_eqI list.set_map take_all)
  then have "map lex_term lxs = map te_term (sorted_terms table)"
    using m by simp
  then show ?thesis using sorted_terms_strict [OF inv] by simp
qed

subsection \<open>The scan succeeds while the table has room\<close>

lemma filter_update_length: "length (filter P (xs[i := y])) \<le> Suc (length (filter P xs))"
proof (induction xs arbitrary: i)
  case Nil
  then show ?case by simp
next
  case (Cons x xs)
  then show ?case by (cases i) (auto simp: le_SucI)
qed

lemma exists_unused:
  assumes "length (filter used table) < length table"
  shows "\<exists>j<length table. \<not> used (table ! j)"
proof (rule ccontr)
  assume "\<not> ?thesis"
  then have "\<forall>x\<in>set table. used x" by (auto simp: in_set_conv_nth)
  then have "filter used table = table" by simp
  with assms show False by simp
qed

lemma record_doc_succeeds:
  "length (postings e) < 2 ^ 31 \<Longrightarrow>
   \<exists>e'. record_doc e d = Some e' \<and> length (postings e') \<le> Suc (length (postings e))"
  by (auto simp: record_doc_def ensure_postings_cap_def)

lemma add_term_doc_succeeds:
  assumes "capacity = length table" and "length (filter used table) < length table"
    and "\<forall>e\<in>set table. length (postings e) \<le> n" and "n < 2 ^ 31"
  shows "\<exists>table'. add_term_doc table capacity tm d = Some table'
           \<and> length (filter used table') \<le> Suc (length (filter used table))
           \<and> (\<forall>e\<in>set table'. length (postings e) \<le> Suc n)"
proof -
  from exists_unused [OF assms(2)] obtain j where j: "j < length table" "\<not> used (table ! j)"
    by blast
  from find_slot_succeeds [OF j] obtain i where
    i: "find_slot table (length table) tm (slot_hash tm (length table)) 0 = Some i" by blast
  have "0 < length table" using j(1) by arith
  then have "slot_hash tm (length table) < length table"
    unfolding slot_hash_def by (rule mod_less_divisor)
  from find_slot_bound [OF i this] have ilt: "i < length table" .
  let ?x = "if used (table ! i) then table ! i else fresh_entry (table ! i) tm"
  have xl: "length (postings ?x) \<le> n"
    using assms(3) ilt by (auto simp: fresh_entry_def)
  then have "length (postings ?x) < 2 ^ 31" using assms(4) by simp
  from record_doc_succeeds [OF this] obtain e' where
    e': "record_doc ?x d = Some e'" "length (postings e') \<le> Suc (length (postings ?x))" by blast
  have a: "add_term_doc table capacity tm d = Some (table[i := e'])"
    using i e'(1) assms(1) by (simp add: add_term_doc_def add_term_doc_loop_find slot_hash_def)
  have b: "\<forall>e\<in>set (table[i := e']). length (postings e) \<le> Suc n"
  proof
    fix e assume "e \<in> set (table[i := e'])"
    then have "e = e' \<or> e \<in> set table"
      using set_update_subset_insert [of table i e'] by auto
    then show "length (postings e) \<le> Suc n"
      using e'(2) xl assms(3) by (auto simp: le_SucI)
  qed
  show ?thesis using a b filter_update_length [of used table i e'] by simp
qed

lemma add_line_tokens_succeeds:
  "capacity = length table \<Longrightarrow> length (filter used table) + length body < length table \<Longrightarrow>
   \<forall>e\<in>set table. length (postings e) \<le> n \<Longrightarrow> n + length body \<le> 2 ^ 31 \<Longrightarrow>
   \<exists>table'. add_line_tokens table capacity d body = Some table' \<and> length table' = length table
     \<and> length (filter used table') \<le> length (filter used table) + length body
     \<and> (\<forall>e\<in>set table'. length (postings e) \<le> n + length body)"
proof (induction body arbitrary: table n)
  case Nil
  then show ?case by simp
next
  case (Cons tk tks)
  show ?case
  proof (cases "tk = []")
    case True
    from Cons.IH [OF Cons.prems(1) _ Cons.prems(3)] Cons.prems(2,4)
    obtain t' where "add_line_tokens table capacity d tks = Some t'" "length t' = length table"
      "length (filter used t') \<le> length (filter used table) + length tks"
      "\<forall>e\<in>set t'. length (postings e) \<le> n + length tks"
      by auto
    then show ?thesis using True by (auto simp: le_SucI)
  next
    case False
    have f: "length (filter used table) < length table" using Cons.prems(2) by simp
    have n: "n < 2 ^ 31" using Cons.prems(4) by simp
    from add_term_doc_succeeds [OF Cons.prems(1) f Cons.prems(3) n, of tk d]
    obtain t1 where t1: "add_term_doc table capacity tk d = Some t1"
      "length (filter used t1) \<le> Suc (length (filter used table))"
      "\<forall>e\<in>set t1. length (postings e) \<le> Suc n" by blast
    have l1: "length t1 = length table" by (rule add_term_doc_length [OF t1(1)])
    have c1: "capacity = length t1" using l1 Cons.prems(1) by simp
    have f1: "length (filter used t1) + length tks < length t1"
      using t1(2) Cons.prems(2) l1 by simp
    have n1: "Suc n + length tks \<le> 2 ^ 31" using Cons.prems(4) by simp
    from Cons.IH [OF c1 f1 t1(3) n1]
    obtain t' where "add_line_tokens t1 capacity d tks = Some t'" "length t' = length t1"
      "length (filter used t') \<le> length (filter used t1) + length tks"
      "\<forall>e\<in>set t'. length (postings e) \<le> Suc n + length tks"
      by auto
    then show ?thesis using False t1 l1 by auto
  qed
qed

lemma scan_stemmed_succeeds:
  "capacity = length table \<Longrightarrow>
   length (filter used table) + length (concat (map snd lines)) < length table \<Longrightarrow>
   \<forall>e\<in>set table. length (postings e) \<le> n \<Longrightarrow> n + length (concat (map snd lines)) \<le> 2 ^ 31 \<Longrightarrow>
   \<exists>table'. scan_stemmed table capacity lines = Some table'"
proof (induction lines arbitrary: table n)
  case Nil
  then show ?case by simp
next
  case (Cons l lines)
  obtain d body where l: "l = (d, body)" by force
  have f: "length (filter used table) + length body < length table"
    using Cons.prems(2) l by simp
  have n: "n + length body \<le> 2 ^ 31" using Cons.prems(4) l by simp
  from add_line_tokens_succeeds [OF Cons.prems(1) f Cons.prems(3) n, of d]
  obtain t1 where t1: "add_line_tokens table capacity d body = Some t1" "length t1 = length table"
    "length (filter used t1) \<le> length (filter used table) + length body"
    "\<forall>e\<in>set t1. length (postings e) \<le> n + length body" by blast
  have c1: "capacity = length t1" using t1(2) Cons.prems(1) by simp
  have f1: "length (filter used t1) + length (concat (map snd lines)) < length t1"
    using t1(2,3) Cons.prems(2) l by simp
  have n1: "n + length body + length (concat (map snd lines)) \<le> 2 ^ 31"
    using Cons.prems(4) l by simp
  from Cons.IH [OF c1 f1 t1(4) n1] obtain t' where "scan_stemmed t1 capacity lines = Some t'"
    by blast
  then show ?case using t1(1) l by simp
qed

lemma term_hash_capacity_ge: "1024 \<le> term_hash_capacity arg"
  by (simp add: term_hash_capacity_def Let_def)

lemma build_index_succeeds:
  assumes "length (concat (map snd lines)) < 1024"
  shows "\<exists>payload lxs. build_index arg lines = Some (payload, lxs)"
proof -
  let ?c = "term_hash_capacity arg"
  have f: "filter used (replicate ?c empty_entry) = []" by (simp add: empty_entry_def)
  have "\<exists>table'. scan_stemmed (replicate ?c empty_entry) ?c lines = Some table'"
  proof (rule scan_stemmed_succeeds [where n = 0])
    show "?c = length (replicate ?c empty_entry)" by simp
    show "length (filter used (replicate ?c empty_entry)) + length (concat (map snd lines))
          < length (replicate ?c empty_entry)"
      unfolding f using assms term_hash_capacity_ge [of arg] by simp
    show "\<forall>e\<in>set (replicate ?c empty_entry). length (postings e) \<le> 0"
      by (simp add: empty_entry_def)
    show "0 + length (concat (map snd lines)) \<le> 2 ^ 31" using assms by simp
  qed
  then obtain table where "scan_stemmed (replicate ?c empty_entry) ?c lines = Some table" by blast
  then show ?thesis
    by (simp add: build_index_def Let_def split: prod.splits)
qed

subsection \<open>Two terms longer than the length field\<close>

lemma long_term_less: "long_term CHR ''b'' < long_term CHR ''c''"
proof -
  have "xs @ [CHR ''b''] < xs @ [CHR ''c'']" for xs :: string
    by (induction xs) simp_all
  then show ?thesis by (simp add: long_term_def)
qed

lemma take_long_term: "take 65535 (long_term c) = replicate 65535 CHR ''a''"
  by (simp add: long_term_def)

lemma long_term_lines_lexicon:
  assumes "build_index None long_term_lines = Some (payload, lxs)"
  shows "map lex_term lxs = [replicate 65535 CHR ''a'', replicate 65535 CHR ''a'']"
proof -
  let ?c = "term_hash_capacity None"
  from build_index_result [OF assms] obtain table where
    s: "scan_stemmed (replicate ?c empty_entry) ?c long_term_lines = Some table"
    and m: "map lex_term lxs = map (\<lambda>e. take 65535 (te_term e)) (sorted_terms table)"
    by blast
  from scan_stemmed_inv [OF s _ table_inv_empty]
  have inv: "table_inv table" and u: "used_terms table = line_tokens long_term_lines"
    by (simp_all add: used_terms_empty)
  have ne: "long_term c \<noteq> []" for c by (simp add: long_term_def)
  have tok: "line_tokens long_term_lines = {long_term CHR ''b'', long_term CHR ''c''}"
    using ne by (auto simp: line_tokens_def long_term_lines_def)
  have "map te_term (sorted_terms table) = [long_term CHR ''b'', long_term CHR ''c'']"
  proof (rule strict_sorted_equal)
    show "sorted_wrt (<) (map te_term (sorted_terms table))" by (rule sorted_terms_strict [OF inv])
    show "sorted_wrt (<) [long_term CHR ''b'', long_term CHR ''c'']"
      using long_term_less by simp
    show "set (map te_term (sorted_terms table)) = set [long_term CHR ''b'', long_term CHR ''c'']"
      using set_sorted_terms [of table] u tok by simp
  qed
  then have "map (take 65535) (map te_term (sorted_terms table))
      = [replicate 65535 CHR ''a'', replicate 65535 CHR ''a'']"
    by (simp only: list.map take_long_term)
  then show ?thesis using m by (simp add: comp_def)
qed

text \<open>
  Two terms of 65536 bytes that differ in their last byte only: both are written as the
  same 65535 bytes, so the terms of lexicon.bin are not strictly ascending.
\<close>

theorem lexicon_truncation_counterexample:
  "build_index None long_term_lines \<noteq> None
   \<and> map lex_term (snd (the (build_index None long_term_lines)))
       = [replicate 65535 CHR ''a'', replicate 65535 CHR ''a'']
   \<and> \<not> sorted_wrt (<) (map lex_term (snd (the (build_index None long_term_lines))))"
proof -
  have "length (concat (map snd long_term_lines)) < 1024"
    by (simp add: long_term_lines_def)
  from build_index_succeeds [OF this, of None] obtain payload lxs where
    b: "build_index None long_term_lines = Some (payload, lxs)" by blast
  from long_term_lines_lexicon [OF b] b show ?thesis by simp
qed

theorem builder_postings_strictly_ascending_witness:
  "\<exists>payload lxs. sorted (map fst [(1 :: u32, [''fox'']), (2, [''fox'', ''dog''])])
     \<and> build_index None [(1, [''fox'']), (2, [''fox'', ''dog''])] = Some (payload, lxs)
     \<and> list_all (\<lambda>r. sorted_wrt (<) (posting_region payload r)) lxs"
proof -
  let ?lines = "[(1 :: u32, [''fox'']), (2, [''fox'', ''dog''])]"
  have s: "sorted (map fst ?lines)" by simp
  have "length (concat (map snd ?lines)) < 1024" by simp
  from build_index_succeeds [OF this, of None] obtain payload lxs where
    b: "build_index None ?lines = Some (payload, lxs)" by blast
  from builder_postings_strictly_ascending [OF s b] s b show ?thesis by blast
qed

theorem lexicon_terms_strictly_ascending_witness:
  "\<exists>payload lxs. build_index None [(1, [''fox'']), (2, [''fox'', ''dog''])] = Some (payload, lxs)
     \<and> list_all (\<lambda>l. list_all (\<lambda>tk. length tk \<le> 65535) (snd l))
          [(1 :: u32, [''fox'']), (2, [''fox'', ''dog''])]
     \<and> sorted_wrt (<) (map lex_term lxs)"
proof -
  let ?lines = "[(1 :: u32, [''fox'']), (2, [''fox'', ''dog''])]"
  have t: "list_all (\<lambda>l. list_all (\<lambda>tk. length tk \<le> 65535) (snd l)) ?lines" by simp
  have "length (concat (map snd ?lines)) < 1024" by simp
  from build_index_succeeds [OF this, of None] obtain payload lxs where
    b: "build_index None ?lines = Some (payload, lxs)" by blast
  from lexicon_terms_strictly_ascending [OF b t] t b show ?thesis by blast
qed

subsection \<open>The universe written to forward.bin\<close>

lemma collect_metas_inv:
  "collect_metas metas max_id ds = Some (metas', max_id') \<Longrightarrow> metas_inv metas \<Longrightarrow> metas_inv metas'"
proof (induction ds arbitrary: metas max_id)
  case Nil
  then show ?case by simp
next
  case (Cons d ds)
  let ?id = "raw_doc_id d"
  show ?case
  proof (cases "?id \<noteq> 0 \<and> ensure_doc_meta_cap (unat ?id) \<and> bm_doc_id (metas (unat ?id)) = 0")
    case True
    let ?m = "metas(unat ?id := \<lparr>bm_doc_id = ?id, bm_title = Some (raw_title d),
                                  bm_url = Some (raw_url d)\<rparr>)"
    have "metas_inv ?m"
      using Cons.prems(2) True by (auto simp: metas_inv_def ensure_doc_meta_cap_def)
    moreover from Cons.prems(1) True
    have "collect_metas ?m (if ?id > max_id then ?id else max_id) ds = Some (metas', max_id')"
      by (simp add: Let_def)
    ultimately show ?thesis using Cons.IH by blast
  next
    case False
    with Cons.prems(1) have "collect_metas metas max_id ds = Some (metas', max_id')"
      by (auto simp: Let_def split: if_splits)
    then show ?thesis using Cons.IH Cons.prems(2) by blast
  qed
qed

lemma sorted_map_filter_upt:
  assumes "\<And>i. i \<in> set xs \<Longrightarrow> P i \<Longrightarrow> i < 2 ^ 31 \<and> f i = (word_of_nat i :: u32)"
    and "sorted_wrt (<) xs"
  shows "sorted_wrt (<) (map f (filter P xs))"
  using assms
proof (induction xs)
  case Nil
  then show ?case by simp
next
  case (Cons x xs)
  have ih: "sorted_wrt (<) (map f (filter P xs))"
    using Cons by simp
  show ?case
  proof (cases "P x")
    case False
    then show ?thesis using ih by simp
  next
    case True
    have "f x < f y" if "y \<in> set xs" "P y" for y
    proof -
      have xy: "x < y" using Cons.prems(2) that by simp
      have fx: "x < 2 ^ 31" "f x = word_of_nat x" using Cons.prems(1) [of x] True by simp_all
      have fy: "y < 2 ^ 31" "f y = word_of_nat y" using Cons.prems(1) [of y] that by simp_all
      have "unat (word_of_nat x :: u32) = x" "unat (word_of_nat y :: u32) = y"
        using fx fy by (simp_all add: unat_of_nat)
      then show ?thesis using xy fx fy by (simp add: word_less_nat_alt)
    qed
    then show ?thesis using ih True by auto
  qed
qed

lemma forward_doc_ids_ascending:
  assumes "collect_metas no_meta 0 ds = Some (metas, max_id)"
  shows "sorted_wrt (<) (forward_doc_ids metas max_id)"
proof -
  have "metas_inv no_meta" by (simp add: metas_inv_def no_meta_def)
  from collect_metas_inv [OF assms this] have inv: "metas_inv metas" .
  show ?thesis
    unfolding forward_doc_ids_def
  proof (rule sorted_map_filter_upt)
    show "sorted_wrt (<) [1..<Suc (unat max_id)]" by (rule sorted_wrt_upt)
    fix i assume "bm_doc_id (metas i) \<noteq> 0"
    then show "i < 2 ^ 31 \<and> bm_doc_id (metas i) = word_of_nat i"
      using inv by (auto simp: metas_inv_def)
  qed
qed

subsection \<open>The contents of the posting lists\<close>

lemma remdups_adj_snoc:
  "remdups_adj (xs @ [d]) = (if xs \<noteq> [] \<and> last xs = d then remdups_adj xs else remdups_adj xs @ [d])"
  by (cases xs rule: rev_cases) (simp_all add: remdups_adj_append_two)

lemma add_term_doc_record:
  assumes "add_term_doc table capacity tm d = Some table'" and "capacity = length table"
  shows "\<exists>i e. i < length table \<and> table' = table[i := e]
           \<and> record_doc (if used (table ! i) then table ! i else fresh_entry (table ! i) tm) d = Some e
           \<and> (used (table ! i) \<longrightarrow> te_term (table ! i) = tm)"
proof -
  from assms obtain i e where
    i: "find_slot table (length table) tm (slot_hash tm (length table)) 0 = Some i"
    and r: "record_doc (if used (table ! i) then table ! i else fresh_entry (table ! i) tm) d = Some e"
    and t: "table' = table[i := e]"
    by (auto simp: add_term_doc_def add_term_doc_loop_find slot_hash_def split: option.splits)
  have cpos: "0 < length table"
    using i by (subst (asm) find_slot.simps) (simp split: if_splits)
  then have h: "slot_hash tm (length table) < length table"
    unfolding slot_hash_def by (rule mod_less_divisor)
  from find_slot_path [OF i refl h] obtain m where
    m: "i = (slot_hash tm (length table) + m) mod length table"
       "\<not> used (table ! i) \<or> te_term (table ! i) = tm"
    by auto
  have ilt: "i < length table" using m(1) cpos by simp
  show ?thesis using ilt t r m(2) by blast
qed

lemma record_doc_content:
  assumes "record_doc e d = Some e'"
    and "postings e = remdups_adj s" and "postings e \<noteq> [] \<longrightarrow> last_doc_id e = last (postings e)"
  shows "postings e' = remdups_adj (s @ [d]) \<and> postings e' \<noteq> []
         \<and> last_doc_id e' = last (postings e')"
proof (cases "postings e = []")
  case True
  then have "s = []" using assms(2) by simp
  then show ?thesis using assms(1) True
    by (auto simp: record_doc_def split: if_splits)
next
  case False
  then have s: "s \<noteq> []" using assms(2) by auto
  have l: "last_doc_id e = last s" using False assms(2,3) by simp
  show ?thesis
  proof (cases "last_doc_id e = d")
    case True
    then have "e' = e" using assms(1) False by (simp add: record_doc_def)
    then show ?thesis using True l s False assms(2,3) by (simp add: remdups_adj_snoc)
  next
    case ne: False
    then have "e' = e\<lparr>postings := postings e @ [d], last_doc_id := d\<rparr>"
      using assms(1) by (simp add: record_doc_def split: if_splits)
    then show ?thesis using ne l s assms(2) by (simp add: remdups_adj_snoc)
  qed
qed

lemma add_term_doc_content:
  assumes a: "add_term_doc table capacity tm d = Some table'" and c: "capacity = length table"
    and inv: "table_inv table" and ci: "content_inv seq table" and ne: "tm \<noteq> []"
  shows "content_inv (seq(tm := seq tm @ [d])) table'"
proof -
  from add_term_doc_record [OF a c] obtain i e where
    s: "i < length table" "table' = table[i := e]"
       "record_doc (if used (table ! i) then table ! i else fresh_entry (table ! i) tm) d = Some e"
       "used (table ! i) \<longrightarrow> te_term (table ! i) = tm"
    by blast
  have inv': "table_inv table'" by (rule table_inv_add [OF a c inv])
  have ut: "used_terms table' = insert tm (used_terms table)"
    unfolding used_terms_def by (rule add_term_doc_terms [OF a c])
  have ue: "used e \<and> te_term e = tm"
    using record_doc_keeps [OF s(3)] s(4) by (auto simp: fresh_entry_def)
  have fresh: "seq tm = []" if nu: "\<not> used (table ! i)"
  proof -
    have "tm \<notin> used_terms table"
    proof
      assume "tm \<in> used_terms table"
      then obtain x where x: "x \<in> set table" "used x" "te_term x = tm"
        by (auto simp: used_terms_def)
      then obtain k where k: "k < length table" "table ! k = x" by (auto simp: in_set_conv_nth)
      have ki: "k \<noteq> i" using k x nu by auto
      have "i = k"
        by (rule table_inv_unique [OF inv']) (use s k x ki ue in simp_all)
      then show False using ki by simp
    qed
    then show ?thesis using ci ne by (simp add: content_inv_def)
  qed
  have e: "postings e = remdups_adj (seq tm @ [d]) \<and> postings e \<noteq> []
           \<and> last_doc_id e = last (postings e)"
  proof (cases "used (table ! i)")
    case True
    then have "postings (table ! i) = remdups_adj (seq tm) \<and> postings (table ! i) \<noteq> []
        \<and> last_doc_id (table ! i) = last (postings (table ! i))"
      using ci s(1,4) by (auto simp: content_inv_def)
    then show ?thesis using record_doc_content [of "table ! i" d e "seq tm"] s(3) True by simp
  next
    case False
    then show ?thesis
      using record_doc_content [of "fresh_entry (table ! i) tm" d e "seq tm"] s(3) fresh
      by (simp add: fresh_entry_def)
  qed
  show ?thesis
    unfolding content_inv_def
  proof (intro conjI ballI allI impI)
    show "[] \<notin> used_terms table'" using ut ci ne by (auto simp: content_inv_def)
  next
    fix t assume "t \<noteq> []" "t \<notin> used_terms table'"
    then show "(seq(tm := seq tm @ [d])) t = []" using ut ci by (auto simp: content_inv_def)
  next
    fix x assume x: "x \<in> set table'" "used x"
    then obtain k where k: "k < length table'" "table' ! k = x" by (auto simp: in_set_conv_nth)
    have g: "postings x = remdups_adj ((seq(tm := seq tm @ [d])) (te_term x))
          \<and> postings x \<noteq> [] \<and> last_doc_id x = last (postings x)"
    proof (cases "k = i")
      case True
      then have "x = e" using k s by simp
      then show ?thesis using e ue by simp
    next
      case False
      then have xk: "x = table ! k" using k s by simp
      have "te_term x \<noteq> tm"
      proof
        assume "te_term x = tm"
        then have "k = i"
          by (intro table_inv_unique [OF inv']) (use s k x ue in simp_all)
        then show False using False by simp
      qed
      moreover have "x \<in> set table" using xk k s(2) by simp
      ultimately show ?thesis using ci x(2) by (auto simp: content_inv_def)
    qed
    from g show "postings x = remdups_adj ((seq(tm := seq tm @ [d])) (te_term x))" by blast
    from g show "postings x \<noteq> []" by blast
    from g show "last_doc_id x = last (postings x)" by blast
  qed
qed

lemma add_line_tokens_content:
  "add_line_tokens table capacity d body = Some table' \<Longrightarrow> capacity = length table \<Longrightarrow>
   table_inv table \<Longrightarrow> content_inv seq table \<Longrightarrow>
   \<exists>seq'. content_inv seq' table' \<and> (\<forall>t. t \<noteq> [] \<longrightarrow> seq' t = seq t @ line_occ t d body)"
proof (induction body arbitrary: table seq)
  case Nil
  then show ?case by (auto simp: line_occ_def)
next
  case (Cons tk tks)
  show ?case
  proof (cases "tk = []")
    case True
    with Cons.prems have "add_line_tokens table capacity d tks = Some table'" by simp
    from Cons.IH [OF this Cons.prems(2,3,4)] obtain seq' where
      "content_inv seq' table'" "\<forall>t. t \<noteq> [] \<longrightarrow> seq' t = seq t @ line_occ t d tks" by blast
    then show ?thesis using True by (intro exI [of _ seq']) (auto simp: line_occ_def)
  next
    case False
    with Cons.prems(1) obtain t1 where a: "add_term_doc table capacity tk d = Some t1"
      and b: "add_line_tokens t1 capacity d tks = Some table'"
      by (auto split: option.splits)
    have l: "length t1 = length table" by (rule add_term_doc_length [OF a])
    have i: "table_inv t1" by (rule table_inv_add [OF a Cons.prems(2,3)])
    have c1: "content_inv (seq(tk := seq tk @ [d])) t1"
      by (rule add_term_doc_content [OF a Cons.prems(2,3,4) False])
    have cap: "capacity = length t1" using l Cons.prems(2) by simp
    from Cons.IH [OF b cap i c1] obtain seq' where
      s: "content_inv seq' table'"
         "\<forall>t. t \<noteq> [] \<longrightarrow> seq' t = (seq(tk := seq tk @ [d])) t @ line_occ t d tks" by blast
    show ?thesis using s by (intro exI [of _ seq']) (auto simp: line_occ_def)
  qed
qed

lemma scan_stemmed_content:
  "scan_stemmed table capacity lines = Some table' \<Longrightarrow> capacity = length table \<Longrightarrow>
   table_inv table \<Longrightarrow> content_inv seq table \<Longrightarrow>
   \<exists>seq'. content_inv seq' table' \<and> (\<forall>t. t \<noteq> [] \<longrightarrow> seq' t = seq t @ occurrences t lines)"
proof (induction lines arbitrary: table seq)
  case Nil
  then show ?case by (auto simp: occurrences_def)
next
  case (Cons l lines)
  obtain d body where l: "l = (d, body)" by force
  with Cons.prems(1) obtain t1 where a: "add_line_tokens table capacity d body = Some t1"
    and b: "scan_stemmed t1 capacity lines = Some table'"
    by (auto split: option.splits)
  from add_line_tokens_inv [OF a Cons.prems(2,3)]
  have t1: "table_inv t1" "length t1 = length table" by auto
  from add_line_tokens_content [OF a Cons.prems(2,3,4)] obtain s1 where
    s1: "content_inv s1 t1" "\<forall>t. t \<noteq> [] \<longrightarrow> s1 t = seq t @ line_occ t d body" by blast
  have cap: "capacity = length t1" using t1(2) Cons.prems(2) by simp
  from Cons.IH [OF b cap t1(1) s1(1)] obtain seq' where
    s: "content_inv seq' table'" "\<forall>t. t \<noteq> [] \<longrightarrow> seq' t = s1 t @ occurrences t lines" by blast
  show ?case using s s1(2) l by (intro exI [of _ seq']) (auto simp: occurrences_def)
qed

lemma scan_stemmed_postings:
  assumes "scan_stemmed (replicate c empty_entry) c lines = Some table"
    and "e \<in> set table" and "used e"
  shows "postings e = built_postings lines (te_term e)"
proof -
  have c0: "content_inv (\<lambda>t. []) (replicate c empty_entry)"
    by (simp add: content_inv_def used_terms_empty) (simp add: empty_entry_def)
  from scan_stemmed_content [OF assms(1) _ table_inv_empty c0] obtain seq' where
    s: "content_inv seq' table" "\<forall>t. t \<noteq> [] \<longrightarrow> seq' t = occurrences t lines" by auto
  have "te_term e \<in> used_terms table" using assms(2,3) by (auto simp: used_terms_def)
  then have "te_term e \<noteq> []" using s(1) by (auto simp: content_inv_def)
  then show ?thesis using s assms(2,3) by (simp add: content_inv_def built_postings_def)
qed

lemma write_postings_layout:
  "write_postings es off = (es', payload) \<Longrightarrow>
   payload = concat (map postings es)
   \<and> map write_lexicon_record es' = layout off (map (\<lambda>e. (te_term e, postings e)) es)"
proof (induction es arbitrary: off es' payload)
  case Nil
  then show ?case by simp
next
  case (Cons e es)
  let ?off' = "if length (postings e) > 0 then off + length (postings e) * 4 else off"
  obtain es1 p1 where r: "write_postings es ?off' = (es1, p1)" by force
  with Cons.prems(1) have es': "es' = e\<lparr>postings_offset_bytes := off\<rparr> # es1"
    and p: "payload = postings e @ p1"
    by (simp_all add: Let_def)
  have o: "?off' = off + 4 * length (postings e)" by simp
  from Cons.IH [OF r] have ih: "p1 = concat (map postings es)"
    "map write_lexicon_record es1 = layout ?off' (map (\<lambda>e. (te_term e, postings e)) es)"
    by simp_all
  have hd: "write_lexicon_record (e\<lparr>postings_offset_bytes := off\<rparr>)
      = \<lparr>lex_term = take 65535 (te_term e), postings_offset = off,
         postings_count = length (postings e)\<rparr>"
    by (simp add: write_lexicon_record_def Let_def)
  show ?case unfolding es' p using ih hd unfolding o by simp
qed

lemma built_terms_sorted: "sorted_wrt (<) (built_terms lines)"
  unfolding strict_sorted_iff by (simp add: built_terms_def)

lemma set_built_terms: "set (built_terms lines) = line_tokens lines"
  by (auto simp: built_terms_def line_tokens_def)

lemma build_index_output:
  assumes "build_index arg lines = Some (payload, lxs)"
  shows "payload = built_payload lines \<and> lxs = built_lexicon lines"
proof -
  let ?c = "term_hash_capacity arg"
  from assms obtain table where
    s: "scan_stemmed (replicate ?c empty_entry) ?c lines = Some table"
    by (auto simp: build_index_def Let_def split: option.splits)
  obtain es' p where w: "write_postings (sorted_terms table) 0 = (es', p)" by force
  with assms s have r: "payload = p" "lxs = map write_lexicon_record es'"
    by (simp_all add: build_index_def Let_def)
  from scan_stemmed_inv [OF s _ table_inv_empty]
  have inv: "table_inv table" and u: "used_terms table = line_tokens lines"
    by (simp_all add: used_terms_empty)
  have tm: "map te_term (sorted_terms table) = built_terms lines"
  proof (rule strict_sorted_equal)
    show "sorted_wrt (<) (map te_term (sorted_terms table))" by (rule sorted_terms_strict [OF inv])
    show "sorted_wrt (<) (built_terms lines)" by (rule built_terms_sorted)
    show "set (map te_term (sorted_terms table)) = set (built_terms lines)"
      using set_sorted_terms [of table] u set_built_terms by simp
  qed
  have po: "postings e = built_postings lines (te_term e)" if "e \<in> set (sorted_terms table)" for e
    using that scan_stemmed_postings [OF s, of e] by (simp add: sorted_terms_def)
  then have a: "map postings (sorted_terms table) = map (built_postings lines) (built_terms lines)"
    unfolding tm [symmetric] by simp
  from po have b: "map (\<lambda>e. (te_term e, postings e)) (sorted_terms table)
      = map (\<lambda>tm. (tm, built_postings lines tm)) (built_terms lines)"
    unfolding tm [symmetric] by simp
  from write_postings_layout [OF w] show ?thesis
    unfolding r built_payload_def built_lexicon_def a b by simp
qed

lemma build_index_small:
  assumes "length (concat (map snd lines)) < 1024"
  shows "build_index arg lines = Some (built_payload lines, built_lexicon lines)"
proof -
  from build_index_succeeds [OF assms, of arg] obtain payload lxs where
    b: "build_index arg lines = Some (payload, lxs)" by blast
  from build_index_output [OF b] b show ?thesis by simp
qed

subsection \<open>The universe holds every non-zero doc id of the TSV\<close>

lemma collect_metas_ids:
  "collect_metas metas max_id ds = Some (metas', max_id') \<Longrightarrow> metas_inv metas \<Longrightarrow>
   max_bound metas max_id \<Longrightarrow>
   max_bound metas' max_id'
   \<and> (\<forall>i. bm_doc_id (metas i) \<noteq> 0 \<longrightarrow> bm_doc_id (metas' i) \<noteq> 0)
   \<and> (\<forall>d\<in>set ds. raw_doc_id d \<noteq> 0 \<longrightarrow> bm_doc_id (metas' (unat (raw_doc_id d))) \<noteq> 0)"
proof (induction ds arbitrary: metas max_id)
  case Nil
  then show ?case by simp
next
  case (Cons d ds)
  let ?id = "raw_doc_id d"
  show ?case
  proof (cases "?id = 0")
    case True
    with Cons.prems(1) have "collect_metas metas max_id ds = Some (metas', max_id')"
      by (simp add: Let_def)
    from Cons.IH [OF this Cons.prems(2,3)] True show ?thesis by simp
  next
    case nz: False
    with Cons.prems(1) have cap: "ensure_doc_meta_cap (unat ?id)"
      by (auto simp: Let_def split: if_splits)
    show ?thesis
    proof (cases "bm_doc_id (metas (unat ?id)) = 0")
      case False
      with Cons.prems(1) nz cap have "collect_metas metas max_id ds = Some (metas', max_id')"
        by (simp add: Let_def)
      from Cons.IH [OF this Cons.prems(2,3)] False show ?thesis by simp
    next
      case True
      let ?m = "metas(unat ?id := \<lparr>bm_doc_id = ?id, bm_title = Some (raw_title d),
                                    bm_url = Some (raw_url d)\<rparr>)"
      let ?mx = "if ?id > max_id then ?id else max_id"
      from Cons.prems(1) nz cap True
      have r: "collect_metas ?m ?mx ds = Some (metas', max_id')"
        by (simp add: Let_def)
      have mi: "metas_inv ?m"
        using Cons.prems(2) nz cap by (auto simp: metas_inv_def ensure_doc_meta_cap_def)
      have mb: "max_bound ?m ?mx"
        unfolding max_bound_def
      proof (intro allI impI)
        fix i assume i: "bm_doc_id (?m i) \<noteq> 0"
        show "i \<le> unat ?mx"
        proof (cases "i = unat ?id")
          case True
          then show ?thesis by (simp add: word_less_nat_alt)
        next
          case False
          with i have "bm_doc_id (metas i) \<noteq> 0" by simp
          then have "i \<le> unat max_id" using Cons.prems(3) by (simp add: max_bound_def)
          then show ?thesis by (simp add: word_less_nat_alt)
        qed
      qed
      from Cons.IH [OF r mi mb]
      have ih: "max_bound metas' max_id'"
        "\<forall>i. bm_doc_id (?m i) \<noteq> 0 \<longrightarrow> bm_doc_id (metas' i) \<noteq> 0"
        "\<forall>d\<in>set ds. raw_doc_id d \<noteq> 0 \<longrightarrow> bm_doc_id (metas' (unat (raw_doc_id d))) \<noteq> 0"
        by blast+
      have a: "bm_doc_id (metas' (unat ?id)) \<noteq> 0" using ih(2) nz by simp
      have b: "\<forall>i. bm_doc_id (metas i) \<noteq> 0 \<longrightarrow> bm_doc_id (metas' i) \<noteq> 0"
      proof (intro allI impI)
        fix i assume "bm_doc_id (metas i) \<noteq> 0"
        then have "bm_doc_id (?m i) \<noteq> 0" using nz by simp
        then show "bm_doc_id (metas' i) \<noteq> 0" using ih(2) by blast
      qed
      show ?thesis using ih(1,3) a b by simp
    qed
  qed
qed

lemma forward_doc_ids_cover:
  assumes c: "collect_metas no_meta 0 ds = Some (metas, max_id)"
    and d: "d \<in> set ds" and nz: "raw_doc_id d \<noteq> 0"
  shows "raw_doc_id d \<in> set (forward_doc_ids metas max_id)"
proof -
  have i0: "metas_inv no_meta" by (simp add: metas_inv_def no_meta_def)
  have b0: "max_bound no_meta 0" by (simp add: max_bound_def no_meta_def)
  from collect_metas_inv [OF c i0] have inv: "metas_inv metas" .
  from collect_metas_ids [OF c i0 b0] d nz
  have mb: "max_bound metas max_id" and s: "bm_doc_id (metas (unat (raw_doc_id d))) \<noteq> 0"
    by auto
  let ?i = "unat (raw_doc_id d)"
  have v: "bm_doc_id (metas ?i) = raw_doc_id d"
    using inv s by (auto simp: metas_inv_def)
  have le: "?i \<le> unat max_id" using mb s by (simp add: max_bound_def)
  have pos: "1 \<le> ?i" using nz by (simp add: unat_gt_0 Suc_le_eq)
  have "?i \<in> set [1..<Suc (unat max_id)]" using le pos by (simp del: upt_Suc)
  then have "?i \<in> set (filter (\<lambda>i. bm_doc_id (metas i) \<noteq> 0) [1..<Suc (unat max_id)])"
    using s by (simp del: upt_Suc)
  then have "bm_doc_id (metas ?i)
      \<in> (\<lambda>i. bm_doc_id (metas i)) ` set (filter (\<lambda>i. bm_doc_id (metas i) \<noteq> 0) [1..<Suc (unat max_id)])"
    by (rule imageI)
  then show ?thesis unfolding forward_doc_ids_def set_map v .
qed

subsection \<open>The index the builder writes is well formed\<close>

lemma set_occurrences: "set (occurrences tm lines) \<subseteq> fst ` set lines"
  by (auto simp: occurrences_def line_occ_def)

lemma built_lexicon_regions:
  "map (posting_region (pre @ concat (map snd tps))) (layout (4 * length pre) tps) = map snd tps"
proof (induction tps arbitrary: pre)
  case Nil
  then show ?case by simp
next
  case (Cons tp tps)
  obtain tm ps where tp: "tp = (tm, ps)" by force
  have "4 * length pre + 4 * length ps = 4 * length (pre @ ps)" by simp
  then have ih: "map (posting_region ((pre @ ps) @ concat (map snd tps)))
      (layout (4 * length pre + 4 * length ps) tps) = map snd tps"
    using Cons.IH [of "pre @ ps"] by simp
  have hd: "posting_region (pre @ ps @ concat (map snd tps))
      \<lparr>lex_term = take 65535 tm, postings_offset = 4 * length pre, postings_count = length ps\<rparr>
      = ps"
    by (simp add: posting_region_def)
  show ?case using ih hd unfolding tp by simp
qed

lemma built_regions:
  "map (posting_region (built_payload lines)) (built_lexicon lines)
     = map (built_postings lines) (built_terms lines)"
proof -
  let ?tps = "map (\<lambda>tm. (tm, built_postings lines tm)) (built_terms lines)"
  have "concat (map snd ?tps) = built_payload lines"
    by (simp add: built_payload_def comp_def)
  then show ?thesis
    using built_lexicon_regions [of "[]" ?tps] by (simp add: built_lexicon_def comp_def)
qed

lemma strict_sorted_remdups_adj:
  "sorted xs \<Longrightarrow> sorted_wrt (<) (remdups_adj (xs :: u32 list))"
proof (induction xs rule: remdups_adj.induct)
  case (3 x y xs)
  show ?case
  proof (cases "x = y")
    case True
    then show ?thesis using 3 by simp
  next
    case False
    have "x < z" if "z \<in> set (y # xs)" for z
    proof -
      have "x \<le> y" "y \<le> z" using "3.prems" that by auto
      then show ?thesis using False by simp
    qed
    then have "\<forall>z\<in>set (remdups_adj (y # xs)). x < z" by simp
    then show ?thesis using False 3 by simp
  qed
qed simp_all

lemma sorted_built_postings:
  assumes "sorted (map fst lines)" and "tm \<in> set (built_terms lines)"
  shows "sorted_wrt (<) (built_postings lines tm)"
proof -
  have "sorted (occurrences tm lines)"
    using assms(1)
  proof (induction lines)
    case Nil
    then show ?case by (simp add: occurrences_def)
  next
    case (Cons l lines)
    have "x \<le> y" if "x \<in> set (line_occ tm (fst l) (snd l))" "y \<in> set (occurrences tm lines)" for x y
    proof -
      have "x = fst l" using that(1) by (auto simp: line_occ_def)
      moreover have "y \<in> fst ` set lines" using that(2) set_occurrences by blast
      ultimately show ?thesis using Cons.prems by auto
    qed
    moreover have "sorted (line_occ tm (fst l) (snd l))"
      by (simp add: line_occ_def sorted_map)
    moreover have "sorted (occurrences tm lines)" using Cons by simp
    ultimately show ?case
      using sorted_append [of "line_occ tm (fst l) (snd l)" "occurrences tm lines"]
      by (simp add: occurrences_def)
  qed
  then show ?thesis unfolding built_postings_def by (rule strict_sorted_remdups_adj)
qed

lemma built_index_wf:
  assumes b: "build_and_load arg lines docs = Some idx"
    and s: "sorted (map fst lines)"
    and m: "list_all (\<lambda>l. fst l \<noteq> 0 \<and> fst l \<in> raw_doc_id ` set docs) lines"
  shows "index_wf idx"
proof -
  from b obtain payload lxs metas max_id where
    bi: "build_index arg lines = Some (payload, lxs)"
    and cm: "collect_metas no_meta 0 docs = Some (metas, max_id)"
    and idx: "idx = loaded_index payload lxs metas max_id"
    by (auto simp: build_and_load_def split: option.splits)
  from build_index_output [OF bi]
  have o: "payload = built_payload lines" "lxs = built_lexicon lines" by simp_all
  have u: "sorted_wrt (<) (universe_ids idx)"
    unfolding idx loaded_index_def using forward_doc_ids_ascending [OF cm] by simp
  have reg: "map (posting_region (postings_data idx)) (lexicon idx)
      = map (built_postings lines) (built_terms lines)"
    unfolding idx loaded_index_def o using built_regions by simp
  have g: "sorted_wrt (<) l \<and> set l \<subseteq> set (universe_ids idx)"
    if "l \<in> set (map (built_postings lines) (built_terms lines))" for l
  proof -
    from that obtain tm where tm: "tm \<in> set (built_terms lines)" "l = built_postings lines tm"
      by auto
    have "set l \<subseteq> fst ` set lines"
      using tm(2) set_occurrences [of tm lines] by (auto simp: built_postings_def)
    moreover have "x \<in> set (forward_doc_ids metas max_id)" if "x \<in> fst ` set lines" for x
    proof -
      from that m have "x \<noteq> 0" "x \<in> raw_doc_id ` set docs" by (auto simp: list_all_iff)
      then show ?thesis using forward_doc_ids_cover [OF cm] by auto
    qed
    ultimately have "set l \<subseteq> set (universe_ids idx)"
      unfolding idx loaded_index_def by auto
    then show ?thesis using sorted_built_postings [OF s tm(1)] tm(2) by simp
  qed
  have "\<forall>r\<in>set (lexicon idx). sorted_wrt (<) (posting_region (postings_data idx) r)
          \<and> set (posting_region (postings_data idx) r) \<subseteq> set (universe_ids idx)"
  proof
    fix r assume "r \<in> set (lexicon idx)"
    then have "posting_region (postings_data idx) r
        \<in> set (map (posting_region (postings_data idx)) (lexicon idx))" by simp
    then show "sorted_wrt (<) (posting_region (postings_data idx) r)
          \<and> set (posting_region (postings_data idx) r) \<subseteq> set (universe_ids idx)"
      unfolding reg by (rule g)
  qed
  then show ?thesis using u by (auto simp: index_wf_def index_sorted_def list_all_iff)
qed

subsection \<open>Indexes built from three inputs\<close>

text \<open>
  The example index is what the builder writes for the three documents of the example.
  From two documents in descending order it writes the posting list 2, 1; from a document
  whose \<open>doc_id\<close> is 0 it writes a posting list with the id 0, which the metadata pass
  skips, so that the id is missing from the universe.
\<close>

lemma build_and_load_eq:
  "build_index arg lines = Some (payload, lxs) \<Longrightarrow>
   collect_metas no_meta 0 docs = Some (metas, max_id) \<Longrightarrow>
   build_and_load arg lines docs = Some (loaded_index payload lxs metas max_id)"
  by (simp add: build_and_load_def)

lemma demo_index_built: "build_and_load None demo_lines demo_docs = Some demo_index"
proof -
  have n: "length (concat (map snd demo_lines)) < 1024" by (simp add: demo_lines_def)
  have t: "built_terms demo_lines = [''brown'', ''fox'']"
    by (simp add: demo_lines_def built_terms_def)
  have p: "built_postings demo_lines ''brown'' = [1]" "built_postings demo_lines ''fox'' = [1, 2, 3]"
    by (simp_all add: demo_lines_def built_postings_def occurrences_def line_occ_def)
  have pl: "built_payload demo_lines = [1, 1, 2, 3]"
    by (simp add: built_payload_def t p)
  have lx: "built_lexicon demo_lines
      = [\<lparr>lex_term = ''brown'', postings_offset = 0, postings_count = 1\<rparr>,
         \<lparr>lex_term = ''fox'', postings_offset = 4, postings_count = 3\<rparr>]"
    by (simp add: built_lexicon_def t p)
  let ?m = "no_meta(1 := \<lparr>bm_doc_id = 1, bm_title = Some ''Alpha'', bm_url = Some ''u1''\<rparr>,
                    2 := \<lparr>bm_doc_id = 2, bm_title = Some ''Bravo'', bm_url = Some ''u2''\<rparr>,
                    3 := \<lparr>bm_doc_id = 3, bm_title = Some ''Charlie'', bm_url = Some ''u3''\<rparr>)"
  have c: "collect_metas no_meta 0 demo_docs = Some (?m, 3)"
    by (simp add: demo_docs_def ensure_doc_meta_cap_def no_meta_def)
  have u: "forward_doc_ids ?m 3 = [1, 2, 3]"
    by (simp add: forward_doc_ids_def no_meta_def upt_rec)
  have f: "(\<lambda>i. \<lparr>title = written_string (bm_title (?m i)), url = written_string (bm_url (?m i))\<rparr>)
      = metas_by_id demo_index"
    by (rule ext) (simp add: demo_index_def written_string_def no_meta_def)
  have "loaded_index (built_payload demo_lines) (built_lexicon demo_lines) ?m 3 = demo_index"
    unfolding loaded_index_def f u pl lx by (simp add: demo_index_def)
  then show ?thesis
    using build_and_load_eq [OF build_index_small [OF n] c] by simp
qed

lemma demo_index_built_wf:
  "sorted (map fst demo_lines)
   \<and> list_all (\<lambda>l. fst l \<noteq> 0 \<and> fst l \<in> raw_doc_id ` set demo_docs) demo_lines
   \<and> index_wf (the (build_and_load None demo_lines demo_docs))"
proof -
  have s: "sorted (map fst demo_lines)" by (simp add: demo_lines_def)
  have m: "list_all (\<lambda>l. fst l \<noteq> 0 \<and> fst l \<in> raw_doc_id ` set demo_docs) demo_lines"
    by (simp add: demo_lines_def demo_docs_def)
  from built_index_wf [OF demo_index_built s m] s m demo_index_built show ?thesis by simp
qed

lemma descending_build:
  "build_and_load None descending_lines two_docs \<noteq> None
   \<and> lexicon (the (build_and_load None descending_lines two_docs))
       = [\<lparr>lex_term = ''fox'', postings_offset = 0, postings_count = 2\<rparr>]
   \<and> postings_data (the (build_and_load None descending_lines two_docs)) = [2, 1]
   \<and> universe_ids (the (build_and_load None descending_lines two_docs)) = [1, 2]"
proof -
  have n: "length (concat (map snd descending_lines)) < 1024" by (simp add: descending_lines_def)
  have t: "built_terms descending_lines = [''fox'']"
    by (simp add: descending_lines_def built_terms_def)
  have p: "built_postings descending_lines ''fox'' = [2, 1]"
    by (simp add: descending_lines_def built_postings_def occurrences_def line_occ_def)
  have pl: "built_payload descending_lines = [2, 1]"
    by (simp add: built_payload_def t p)
  have lx: "built_lexicon descending_lines
      = [\<lparr>lex_term = ''fox'', postings_offset = 0, postings_count = 2\<rparr>]"
    by (simp add: built_lexicon_def t p)
  let ?m = "no_meta(1 := \<lparr>bm_doc_id = 1, bm_title = Some ''Alpha'', bm_url = Some ''u1''\<rparr>,
                    2 := \<lparr>bm_doc_id = 2, bm_title = Some ''Bravo'', bm_url = Some ''u2''\<rparr>)"
  have c: "collect_metas no_meta 0 two_docs = Some (?m, 2)"
    by (simp add: two_docs_def ensure_doc_meta_cap_def no_meta_def)
  have u: "forward_doc_ids ?m 2 = [1, 2]"
    by (simp add: forward_doc_ids_def no_meta_def upt_rec)
  show ?thesis
    unfolding build_and_load_eq [OF build_index_small [OF n] c] loaded_index_def u pl lx
    by simp
qed

lemma zero_id_build:
  "build_and_load None zero_id_lines zero_id_docs \<noteq> None
   \<and> lexicon (the (build_and_load None zero_id_lines zero_id_docs))
       = [\<lparr>lex_term = ''fox'', postings_offset = 0, postings_count = 2\<rparr>]
   \<and> postings_data (the (build_and_load None zero_id_lines zero_id_docs)) = [0, 1]
   \<and> universe_ids (the (build_and_load None zero_id_lines zero_id_docs)) = [1]"
proof -
  have n: "length (concat (map snd zero_id_lines)) < 1024" by (simp add: zero_id_lines_def)
  have t: "built_terms zero_id_lines = [''fox'']"
    by (simp add: zero_id_lines_def built_terms_def)
  have p: "built_postings zero_id_lines ''fox'' = [0, 1]"
    by (simp add: zero_id_lines_def built_postings_def occurrences_def line_occ_def)
  have pl: "built_payload zero_id_lines = [0, 1]"
    by (simp add: built_payload_def t p)
  have lx: "built_lexicon zero_id_lines
      = [\<lparr>lex_term = ''fox'', postings_offset = 0, postings_count = 2\<rparr>]"
    by (simp add: built_lexicon_def t p)
  let ?m = "no_meta(1 := \<lparr>bm_doc_id = 1, bm_title = Some ''Alpha'', bm_url = Some ''u1''\<rparr>)"
  have c: "collect_metas no_meta 0 zero_id_docs = Some (?m, 1)"
    by (simp add: zero_id_docs_def ensure_doc_meta_cap_def no_meta_def)
  have u: "forward_doc_ids ?m 1 = [1]"
    by (simp add: forward_doc_ids_def no_meta_def upt_rec)
  show ?thesis
    unfolding build_and_load_eq [OF build_index_small [OF n] c] loaded_index_def u pl lx
    by simp
qed

lemma fox_tokens: "tokenize_query ''fox'' = [mk_token TOK_TERM (Some ''fox'')]"
  by (simp add: lex_eval)

lemma not_fox_tokens: "tokenize_query ''!(fox)'' =
    [mk_token TOK_NOT None, mk_token TOK_LPAREN None, mk_token TOK_TERM (Some ''fox''),
     mk_token TOK_RPAREN None]"
  by (simp add: lex_eval)

lemma one_term_evaluate:
  assumes "lexicon idx = [\<lparr>lex_term = ''fox'', postings_offset = 0, postings_count = 2\<rparr>]"
    and "postings_data idx = [a, b]"
  shows "evaluate idx ''fox'' = Inr [a, b]"
    and "evaluate idx ''!(fox)'' = Inr (not_merge (universe_ids idx) [a, b])"
proof -
  have f: "lexicon_find idx ''fox'' = Some (0, 2)"
    by (simp add: lexicon_find_def lexicon_find_loop.simps strcmp_def assms(1))
  show "evaluate idx ''fox'' = Inr [a, b]"
    by (simp add: evaluate_def fox_tokens parse_eval mk_token_def eval_rpn_def f assms(2))
  show "evaluate idx ''!(fox)'' = Inr (not_merge (universe_ids idx) [a, b])"
    by (simp add: evaluate_def not_fox_tokens parse_eval mk_token_def eval_rpn_def f assms(2)
        op_not_def)
qed

theorem not_is_complement_witness:
  "build_and_load None demo_lines demo_docs = Some demo_index
   \<and> index_wf demo_index \<and> tokenize_query ''fox && brown'' \<noteq> []
   \<and> evaluate demo_index ''fox && brown'' = Inr [1]
   \<and> (\<exists>r'. evaluate demo_index ''!(fox && brown)'' = Inr r'
          \<and> set r' \<union> set [1] = set (universe_ids demo_index) \<and> set r' \<inter> set [1] = {})"
proof -
  have t: "tokenize_query ''fox && brown'' \<noteq> []" by (simp add: demo_tokens)
  from not_is_complement [OF demo_index_wf t demo_evaluate] demo_index_wf t demo_evaluate
    demo_index_built
  show ?thesis by simp
qed

text \<open>
  Three inputs on which the complement property C1 fails.  The empty query is answered
  with the empty result, while \<open>!()\<close> is an evaluation error: NOT finds no operand.
  On the index built from two documents in descending \<open>doc_id\<close> order, \<open>fox\<close> gives
  2, 1 and \<open>!(fox)\<close> gives 1: the merge of NOT passes the id 1 of the universe before it
  meets it in the operand, and the two results share it.  On the index built from a
  document with \<open>doc_id\<close> 0, \<open>fox\<close> gives 0, 1 and \<open>!(fox)\<close> gives nothing: the
  id 0 is in the result but not in the universe.
\<close>

theorem not_is_complement_counterexample:
  "index_wf demo_index \<and> evaluate demo_index [] = Inr []
   \<and> run_single_query demo_index [] 0 50 = Inr [''TOTAL'' @ [CHR 0x09] @ ''0'' @ [CHR 0x0A]]
   \<and> evaluate demo_index ''!()'' = Inl EvalError
   \<and> run_single_query demo_index ''!()'' 0 50 = Inl EvalError
   \<and> set [] \<noteq> set (universe_ids demo_index)
   \<and> build_and_load None descending_lines two_docs \<noteq> None
   \<and> universe_ids (the (build_and_load None descending_lines two_docs)) = [1, 2]
   \<and> evaluate (the (build_and_load None descending_lines two_docs)) ''fox'' = Inr [2, 1]
   \<and> evaluate (the (build_and_load None descending_lines two_docs)) ''!(fox)'' = Inr [1]
   \<and> set [1 :: u32] \<inter> set [2, 1] \<noteq> {}
   \<and> build_and_load None zero_id_lines zero_id_docs \<noteq> None
   \<and> universe_ids (the (build_and_load None zero_id_lines zero_id_docs)) = [1]
   \<and> evaluate (the (build_and_load None zero_id_lines zero_id_docs)) ''fox'' = Inr [0, 1]
   \<and> evaluate (the (build_and_load None zero_id_lines zero_id_docs)) ''!(fox)'' = Inr []
   \<and> set [] \<union> set [0 :: u32, 1] \<noteq> set [1]"
proof -
  have a: "evaluate demo_index [] = Inr []"
    by (simp add: evaluate_def lex_eval)
  have "tokenize_query ''!()'' =
      [mk_token TOK_NOT None, mk_token TOK_LPAREN None, mk_token TOK_RPAREN None]"
    by (simp add: lex_eval)
  then have b: "evaluate demo_index ''!()'' = Inl EvalError"
    by (simp add: evaluate_def parse_eval mk_token_def eval_rpn_def)
  have e: "run_single_query demo_index [] 0 50 = Inr [''TOTAL'' @ [CHR 0x09] @ ''0'' @ [CHR 0x0A]]"
    "run_single_query demo_index ''!()'' 0 50 = Inl EvalError"
    "set [] \<noteq> set (universe_ids demo_index)"
    using a b by (simp_all add: run_single_query_evaluate print_results_empty demo_index_def)
  let ?d = "the (build_and_load None descending_lines two_docs)"
  let ?z = "the (build_and_load None zero_id_lines zero_id_docs)"
  note d = descending_build
  note z = zero_id_build
  have d1: "evaluate ?d ''fox'' = Inr [2, 1]"
    using one_term_evaluate(1) [of ?d 2 1] d by simp
  have d2: "evaluate ?d ''!(fox)'' = Inr [1]"
    using one_term_evaluate(2) [of ?d 2 1] d by simp
  have z1: "evaluate ?z ''fox'' = Inr [0, 1]"
    using one_term_evaluate(1) [of ?z 0 1] z by simp
  have z2: "evaluate ?z ''!(fox)'' = Inr []"
    using one_term_evaluate(2) [of ?z 0 1] z by simp
  have s: "set [1 :: u32] \<inter> set [2, 1] \<noteq> {}" "set [] \<union> set [0 :: u32, 1] \<noteq> set [1]"
    by auto
  show ?thesis
    using demo_index_wf a b e d d1 d2 z z1 z2 s by blast
qed

end
